theory Spec2Isabelle
  imports Main "HOL-Library.Word"
begin

unbundle bit_operations_syntax

section \<open>Data model of PagedInputStream\<close>

text \<open>
  The embedding follows \<^verbatim>\<open>velox/dwio/common/compression/PagedInputStream.cpp\<close>.
  The class declaration (the header file) is not part of the sources at hand, so the
  fields are taken from their uses in the member functions. Counters and offsets are
  mathematical integers: the theorems below speak about runs in which no counter leaves
  the range of its machine type.
\<close>

type_synonym byte = "8 word"

text \<open>\<^verbatim>\<open>enum class State { HEADER, START, ORIGINAL, END }\<close>: awaiting a header, serving a
  compressed block, serving a raw block, exhausted.\<close>

datatype State = HEADER | START | ORIGINAL | END

text \<open>
  A \<^verbatim>\<open>const char*\<close> is either \<^verbatim>\<open>nullptr\<close> or an offset into one of the four memory
  areas the stream ever points into: the last range handed out by the underlying source,
  the reassembly buffer \<^verbatim>\<open>inputBuffer_\<close>, the buffer returned by the decrypter and the
  decompression buffer \<^verbatim>\<open>outputBuffer_\<close>.
\<close>

datatype area = InputRange | InputBufferData | DecryptionData | OutputBufferData

datatype ptr = Null | Ptr area int

text \<open>Every \<^verbatim>\<open>DWIO_ENSURE\<close> / \<^verbatim>\<open>VELOX_CHECK\<close> of the file is one error value.
  \<open>UndefinedBehaviour\<close> stands for the places where the C++ would read outside a range
  or subtract unrelated pointers.\<close>

datatype error =
    ReadPastEOF
  | PendingSkipNotZero
  | InvalidStreamState
  | NullInput
  | NegativeCount
  | BackupWithoutNext
  | BackupOutOfRange
  | UndefinedBehaviour

text \<open>Calls made to the external collaborators, in order. The log is not a field of the
  class; it is what lets "is invoked" and "is never invoked" be stated.\<close>

datatype call =
    CallInputNext
  | CallInputSeek int
  | CallDecrypt "byte list"
  | CallGetDecompressedLength "byte list"
  | CallDecompress "byte list" int

subsection \<open>The external collaborators\<close>

text \<open>
  Modelled from the spec: the underlying chunked source (\<^verbatim>\<open>SeekableInputStream\<close>) is not
  among the sources. Section 6 gives its interface: \<^verbatim>\<open>next() -> chunk | end\<close>,
  \<^verbatim>\<open>byteCount()\<close> and \<^verbatim>\<open>seekToPosition(offset)\<close>. A source is the list of chunks it will
  still hand out (any sizes, empty ones included), its byte count, and the chunks it
  would hand out after a seek to each offset.
\<close>

record source =
  chunks :: "byte list list"
  byteCount :: int
  chunksAt :: "int \<Rightarrow> byte list list"

definition source_Next :: "source \<Rightarrow> (byte list \<times> source) option" where
  "source_Next s =
     (case chunks s of
        [] \<Rightarrow> None
      | c # cs \<Rightarrow> Some (c, s\<lparr>chunks := cs, byteCount := byteCount s + int (length c)\<rparr>))"

definition source_ByteCount :: "source \<Rightarrow> int" where
  "source_ByteCount s = byteCount s"


text \<open>
  Modelled from the spec: the decompressor capability of section 6,
  \<^verbatim>\<open>getDecompressedLength(bytes) -> (length, isExact)\<close> and
  \<^verbatim>\<open>decompress(input, inputLength, outputBuffer, outputCapacity) -> producedLength\<close>.
  \<open>decompress\<close> returns the bytes it writes to the start of the output buffer.
\<close>

record decompressor =
  getDecompressedLength :: "byte list \<Rightarrow> int \<times> bool"
  decompress :: "byte list \<Rightarrow> int \<Rightarrow> byte list"

text \<open>Modelled from the spec: the decrypter capability, \<^verbatim>\<open>decrypt(bytes) -> ownedBuffer\<close>.\<close>

type_synonym decrypter = "byte list \<Rightarrow> byte list"

subsection \<open>The stream\<close>

record stream =
  input :: source
  decompressor :: "decompressor option"
  decrypter :: "decrypter option"
  inputRange :: "byte list"
  inputBuffer :: "byte list"
  outputBuffer :: "byte list option"
  decryptionBuffer :: "byte list option"
  state :: State
  outputBufferPtr :: ptr
  outputBufferLength :: int
  remainingLength :: int
  inputBufferStart :: ptr
  inputBufferPtr :: ptr
  inputBufferPtrEnd :: ptr
  bytesReturned :: int
  lastWindowSize :: int
  lastHeaderOffset :: int
  bytesReturnedAtLastHeaderOffset :: int
  pendingSkip :: int
  calls :: "call list"

text \<open>
  \<open>inputRange\<close> is the memory of the last range returned by \<^verbatim>\<open>input_->Next\<close>; the three
  \<^verbatim>\<open>inputBuffer...\<close> pointers range over it. A buffer is the list of its bytes, as long as
  its capacity; \<open>None\<close> is a \<^verbatim>\<open>unique_ptr\<close> holding \<^verbatim>\<open>nullptr\<close>.
\<close>

fun areas ::
  "byte list \<Rightarrow> byte list \<Rightarrow> byte list option \<Rightarrow> byte list option \<Rightarrow> area \<Rightarrow> byte list option"
where
  "areas r b d ob InputRange = Some r"
| "areas r b d ob InputBufferData = Some b"
| "areas r b d ob DecryptionData = d"
| "areas r b d ob OutputBufferData = ob"

definition area_bytes :: "stream \<Rightarrow> area \<Rightarrow> byte list option" where
  "area_bytes st =
     areas (inputRange st) (inputBuffer st) (decryptionBuffer st) (outputBuffer st)"

text \<open>The \<open>n\<close> bytes at a pointer, when they lie inside a live area.\<close>

fun read_at :: "(area \<Rightarrow> byte list option) \<Rightarrow> ptr \<Rightarrow> int \<Rightarrow> byte list option" where
  "read_at m Null n = (if n = 0 then Some [] else None)"
| "read_at m (Ptr a off) n =
     (case m a of
        None \<Rightarrow> None
      | Some xs \<Rightarrow>
          if 0 \<le> off \<and> 0 \<le> n \<and> off + n \<le> int (length xs)
          then Some (take (nat n) (drop (nat off) xs))
          else None)"

definition bytes_at :: "stream \<Rightarrow> ptr \<Rightarrow> int \<Rightarrow> byte list option" where
  "bytes_at st p n = read_at (area_bytes st) p n"

text \<open>\<^verbatim>\<open>std::copy\<close> of \<open>bs\<close> to position \<open>pos\<close> of a buffer.\<close>

definition copy_to :: "byte list \<Rightarrow> int \<Rightarrow> byte list \<Rightarrow> byte list" where
  "copy_to buf pos bs = take (nat pos) buf @ bs @ drop (nat pos + length bs) buf"

fun ptr_add :: "ptr \<Rightarrow> int \<Rightarrow> ptr" where
  "ptr_add Null n = Null"
| "ptr_add (Ptr a off) n = Ptr a (off + n)"

text \<open>\<^verbatim>\<open>q - p\<close> for two pointers: defined for two pointers into one area, and for two null
  pointers.\<close>

fun ptr_diff :: "ptr \<Rightarrow> ptr \<Rightarrow> int option" where
  "ptr_diff Null Null = Some 0"
| "ptr_diff (Ptr a i) (Ptr b j) = (if a = b then Some (i - j) else None)"
| "ptr_diff _ _ = None"

text \<open>\<^verbatim>\<open>p <= q\<close>: pointers into different areas are never inside each other's range.\<close>

fun ptr_le :: "ptr \<Rightarrow> ptr \<Rightarrow> bool" where
  "ptr_le (Ptr a i) (Ptr b j) = (a = b \<and> i \<le> j)"
| "ptr_le Null Null = True"
| "ptr_le _ _ = False"

text \<open>The stream as the constructor leaves it.\<close>

definition PagedInputStream ::
  "source \<Rightarrow> decompressor option \<Rightarrow> decrypter option \<Rightarrow> stream" where
  "PagedInputStream src dc dy =
     \<lparr>input = src, decompressor = dc, decrypter = dy, inputRange = [], inputBuffer = [],
      outputBuffer = None, decryptionBuffer = None, state = HEADER, outputBufferPtr = Null,
      outputBufferLength = 0, remainingLength = 0, inputBufferStart = Null,
      inputBufferPtr = Null, inputBufferPtrEnd = Null, bytesReturned = 0,
      lastWindowSize = 0, lastHeaderOffset = 0, bytesReturnedAtLastHeaderOffset = 0,
      pendingSkip = 0, calls = []\<rparr>"

section \<open>Operations\<close>

subsection \<open>prepareOutputBuffer, readBuffer, readByte, readHeader\<close>

definition prepareOutputBuffer :: "int \<Rightarrow> stream \<Rightarrow> stream" where
  "prepareOutputBuffer uncompressedLength st =
     (case outputBuffer st of
        None \<Rightarrow> st\<lparr>outputBuffer := Some (replicate (nat uncompressedLength) 0)\<rparr>
      | Some buf \<Rightarrow>
          if uncompressedLength > int (length buf)
          then st\<lparr>outputBuffer := Some (replicate (nat uncompressedLength) 0)\<rparr>
          else st)"

definition readBuffer :: "bool \<Rightarrow> stream \<Rightarrow> error + stream" where
  "readBuffer failOnEof st =
     (case source_Next (input st) of
        None \<Rightarrow>
          if failOnEof then Inl ReadPastEOF
          else Inr (st\<lparr>calls := calls st @ [CallInputNext], state := END,
                       inputBufferStart := Null, inputBufferPtr := Null,
                       inputBufferPtrEnd := Null\<rparr>)
      | Some (c, src) \<Rightarrow>
          Inr (st\<lparr>calls := calls st @ [CallInputNext], input := src, inputRange := c,
                  inputBufferStart := Ptr InputRange 0, inputBufferPtr := Ptr InputRange 0,
                  inputBufferPtrEnd := Ptr InputRange (int (length c))\<rparr>))"

text \<open>\<^verbatim>\<open>static_cast<unsigned char>(*(inputBufferPtr_++))\<close>\<close>

definition fetch_byte :: "stream \<Rightarrow> error + (32 word \<times> stream)" where
  "fetch_byte st =
     (case bytes_at st (inputBufferPtr st) 1 of
        Some [b] \<Rightarrow> Inr (ucast b, st\<lparr>inputBufferPtr := ptr_add (inputBufferPtr st) 1\<rparr>)
      | _ \<Rightarrow> Inl UndefinedBehaviour)"

definition readByte :: "bool \<Rightarrow> stream \<Rightarrow> error + (32 word \<times> stream)" where
  "readByte failOnEof st =
     (if inputBufferPtr st = inputBufferPtrEnd st then
        (case readBuffer failOnEof st of
           Inl e \<Rightarrow> Inl e
         | Inr st1 \<Rightarrow> if state st1 = END then Inr (0, st1) else fetch_byte st1)
      else fetch_byte st)"

definition readHeader :: "stream \<Rightarrow> error + stream" where
  "readHeader st =
     (case readByte False st of
        Inl e \<Rightarrow> Inl e
      | Inr (b0, st1) \<Rightarrow>
          (case ptr_diff (inputBufferPtrEnd st1) (inputBufferPtr st1) of
             None \<Rightarrow> Inl UndefinedBehaviour
           | Some rest \<Rightarrow>
               let st2 = st1\<lparr>lastHeaderOffset := source_ByteCount (input st1) - rest - 1,
                              bytesReturnedAtLastHeaderOffset := bytesReturned st1\<rparr>
               in if state st2 \<noteq> END then
                    (case readByte True st2 of
                       Inl e \<Rightarrow> Inl e
                     | Inr (b1, st3) \<Rightarrow>
                         (case readByte True st3 of
                            Inl e \<Rightarrow> Inl e
                          | Inr (b2, st4) \<Rightarrow>
                              let header = b0 OR push_bit 8 b1 OR push_bit 16 b2
                              in Inr (st4\<lparr>state := (if header AND 1 \<noteq> 0 then ORIGINAL
                                                       else START),
                                          remainingLength := uint (drop_bit 1 header)\<rparr>)))
                  else Inr (st2\<lparr>remainingLength := 0\<rparr>)))"

subsection \<open>ensureInput\<close>

text \<open>\<^verbatim>\<open>static_cast<size_t>(inputBufferPtrEnd_ - inputBufferPtr_)\<close>: the bytes left in the
  current range.\<close>

definition availableInput :: "stream \<Rightarrow> int option" where
  "availableInput st =
     (case ptr_diff (inputBufferPtrEnd st) (inputBufferPtr st) of
        None \<Rightarrow> None
      | Some d \<Rightarrow> if 0 \<le> d then Some d else None)"

text \<open>Modelled from the spec: \<^verbatim>\<open>DataBuffer::reserve\<close> is not among the sources; the
  reassembly buffer's "capacity grows monotonically, never shrinks".\<close>

definition reserve :: "byte list \<Rightarrow> int \<Rightarrow> byte list" where
  "reserve buf n = buf @ replicate (nat n - length buf) 0"

lemma readBuffer_consumes:
  "readBuffer True st = Inr st1 \<Longrightarrow> length (chunks (input st1)) < length (chunks (input st))"
  by (auto simp: readBuffer_def source_Next_def split: list.splits)

text \<open>The \<^verbatim>\<open>for\<close> loop of \<^verbatim>\<open>ensureInput\<close>: one more range per round, until \<open>pos\<close>
  reaches the block's length.\<close>

function ensureInput_loop :: "int \<Rightarrow> stream \<Rightarrow> error + stream" where
  "ensureInput_loop pos st =
     (if pos < remainingLength st then
        (case readBuffer True st of
           Inl e \<Rightarrow> Inl e
         | Inr st1 \<Rightarrow>
             (case availableInput st1 of
                None \<Rightarrow> Inl UndefinedBehaviour
              | Some avail \<Rightarrow>
                  (case bytes_at st1 (inputBufferPtr st1)
                          (min avail (remainingLength st1 - pos)) of
                     None \<Rightarrow> Inl UndefinedBehaviour
                   | Some bs \<Rightarrow>
                       ensureInput_loop (pos + min avail (remainingLength st1 - pos))
                         (st1\<lparr>inputBuffer := copy_to (inputBuffer st1) pos bs,
                              inputBufferPtr :=
                                ptr_add (inputBufferPtr st1)
                                  (min avail (remainingLength st1 - pos))\<rparr>))))
      else Inr st)"
  by pat_completeness auto

termination
  by (relation "measure (\<lambda>(pos, st). length (chunks (input st)))")
     (auto dest: readBuffer_consumes)

declare ensureInput_loop.simps [simp del]

definition ensureInput :: "int \<Rightarrow> stream \<Rightarrow> error + (ptr \<times> stream)" where
  "ensureInput availableInputBytes st =
     (let input0 = inputBufferPtr st in
      if remainingLength st \<le> availableInputBytes then
        Inr (input0, st\<lparr>inputBufferPtr := ptr_add (inputBufferPtr st) availableInputBytes\<rparr>)
      else
        (let st1 = (if int (length (inputBuffer st)) < remainingLength st
                    then st\<lparr>inputBuffer := reserve (inputBuffer st) (remainingLength st)\<rparr>
                    else st)
         in case bytes_at st1 (inputBufferPtr st1) availableInputBytes of
              None \<Rightarrow> Inl UndefinedBehaviour
            | Some bs \<Rightarrow>
                (case ensureInput_loop availableInputBytes
                        (st1\<lparr>inputBuffer := copy_to (inputBuffer st1) 0 bs,
                             inputBufferPtr :=
                               ptr_add (inputBufferPtr st1) availableInputBytes\<rparr>) of
                   Inl e \<Rightarrow> Inl e
                 | Inr st2 \<Rightarrow> Inr (Ptr InputBufferData 0, st2))))"

subsection \<open>readOrSkip\<close>

text \<open>
  The two out-parameters \<^verbatim>\<open>data\<close> and \<^verbatim>\<open>size\<close> are a pair: what the call has stored in
  \<^verbatim>\<open>*data\<close> (\<open>None\<close> when nothing was stored, as in a skip-mode call, where \<^verbatim>\<open>data\<close> is
  null) and the value of \<^verbatim>\<open>*size\<close>. The argument \<open>data\<close> says whether \<^verbatim>\<open>data\<close> is
  non-null. A call returns \<open>None\<close> for \<^verbatim>\<open>false\<close> and \<open>Some\<close> of the pair for \<^verbatim>\<open>true\<close>.
\<close>

type_synonym out = "ptr option \<times> int"

text \<open>Lines 166 to 176: "perform decryption".\<close>

definition decryptBlock ::
  "bool \<Rightarrow> ptr \<Rightarrow> out \<Rightarrow> stream \<Rightarrow> error + (ptr \<times> out \<times> stream)" where
  "decryptBlock data input0 out0 st =
     (case decrypter st of
        None \<Rightarrow> Inr (input0, out0, st)
      | Some decrypt \<Rightarrow>
          (case bytes_at st input0 (remainingLength st) of
             None \<Rightarrow> Inl UndefinedBehaviour
           | Some bs \<Rightarrow>
               let plain = decrypt bs;
                   n = int (length plain)
               in Inr (Ptr DecryptionData 0,
                       (if data then Some (Ptr DecryptionData 0) else fst out0, n),
                       st\<lparr>calls := calls st @ [CallDecrypt bs],
                          decryptionBuffer := Some plain,
                          remainingLength := n,
                          outputBufferPtr := Ptr DecryptionData n\<rparr>)))"

text \<open>Lines 179 to 202: "perform decompression".\<close>

definition decompressBlock ::
  "bool \<Rightarrow> ptr \<Rightarrow> out \<Rightarrow> stream \<Rightarrow> error + (out \<times> stream)" where
  "decompressBlock data input0 out0 st =
     (if state st = START then
        (case decompressor st of
           None \<Rightarrow> Inl InvalidStreamState
         | Some d \<Rightarrow>
             if input0 = Null then Inl NullInput
             else
               (case bytes_at st input0 (remainingLength st) of
                  None \<Rightarrow> Inl UndefinedBehaviour
                | Some bs \<Rightarrow>
                    let decompressedLength = fst (getDecompressedLength d bs);
                        exact = snd (getDecompressedLength d bs);
                        st1 = st\<lparr>calls := calls st @ [CallGetDecompressedLength bs]\<rparr>
                    in if \<not> data \<and> exact \<and> decompressedLength \<le> pendingSkip st1 then
                         Inr ((fst out0, decompressedLength),
                              st1\<lparr>outputBufferPtr := Null, decryptionBuffer := None\<rparr>)
                       else
                         (let st2 = prepareOutputBuffer decompressedLength st1 in
                          case outputBuffer st2 of
                            None \<Rightarrow> Inl UndefinedBehaviour
                          | Some buf \<Rightarrow>
                              let produced = decompress d bs (int (length buf));
                                  n = int (length produced)
                              in Inr ((if data then Some (Ptr OutputBufferData 0)
                                       else fst out0, n),
                                      st2\<lparr>calls := calls st2 @
                                             [CallDecompress bs (int (length buf))],
                                          outputBuffer := Some (copy_to buf 0 produced),
                                          outputBufferLength := n,
                                          outputBufferPtr := Ptr OutputBufferData n,
                                          decryptionBuffer := None\<rparr>))))
      else Inr (out0, st))"

text \<open>Lines 209 to 212, the common end of a read that took new bytes.\<close>

definition finishRead :: "out \<Rightarrow> stream \<Rightarrow> error + (out option \<times> stream)" where
  "finishRead out0 st =
     Inr (Some out0,
          st\<lparr>outputBufferLength := 0,
             bytesReturned := bytesReturned st + snd out0,
             lastWindowSize := snd out0\<rparr>)"

text \<open>Lines 134 to 136: a new header is read when none is being served.\<close>

definition headerStage :: "stream \<Rightarrow> error + stream" where
  "headerStage st =
     (if state st = HEADER \<or> remainingLength st = 0 then readHeader st else Inr st)"

text \<open>Lines 140 to 142: a new range is asked for when the current one is used up.\<close>

definition rangeStage :: "stream \<Rightarrow> error + stream" where
  "rangeStage st =
     (if inputBufferPtr st = inputBufferPtrEnd st then readBuffer True st else Inr st)"

text \<open>Lines 153 to 160 and the common end: the branch \<^verbatim>\<open>if (original)\<close>, which hands out
  a view into the source's range.\<close>

definition readOriginal :: "bool \<Rightarrow> int \<Rightarrow> stream \<Rightarrow> error + (out option \<times> stream)" where
  "readOriginal data availSize st =
     finishRead (if data then Some (inputBufferPtr st) else None, availSize)
       (st\<lparr>outputBufferPtr := ptr_add (inputBufferPtr st) availSize,
           inputBufferPtr := ptr_add (inputBufferPtr st) availSize,
           remainingLength := remainingLength st - availSize\<rparr>)"

text \<open>Lines 161 to 207 and the common end: the other branch, which makes the block
  contiguous, decrypts it, decompresses it and returns to \<open>HEADER\<close>.\<close>

definition readEncoded :: "bool \<Rightarrow> int \<Rightarrow> stream \<Rightarrow> error + (out option \<times> stream)" where
  "readEncoded data availSize st =
     (case ensureInput availSize st of
        Inl e \<Rightarrow> Inl e
      | Inr (input1, st3) \<Rightarrow>
          (case decryptBlock data input1 (None, 0) st3 of
             Inl e \<Rightarrow> Inl e
           | Inr (input2, out2, st4) \<Rightarrow>
               (case decompressBlock data input2 out2 st4 of
                  Inl e \<Rightarrow> Inl e
                | Inr (out3, st5) \<Rightarrow>
                    finishRead out3 (st5\<lparr>remainingLength := 0, state := HEADER\<rparr>))))"

text \<open>Lines 131 to 213: the read of new bytes, after the replay window was found empty.\<close>

definition readBlock :: "bool \<Rightarrow> stream \<Rightarrow> error + (out option \<times> stream)" where
  "readBlock data st =
     (case headerStage (st\<lparr>decryptionBuffer := None\<rparr>) of
        Inl e \<Rightarrow> Inl e
      | Inr st1 \<Rightarrow>
          if state st1 = END then Inr (None, st1)
          else
            (case rangeStage st1 of
               Inl e \<Rightarrow> Inl e
             | Inr st2 \<Rightarrow>
                 (case availableInput st2 of
                    None \<Rightarrow> Inl UndefinedBehaviour
                  | Some avail \<Rightarrow>
                      if decrypter st2 = None \<and> state st2 = ORIGINAL
                      then readOriginal data (min avail (remainingLength st2)) st2
                      else readEncoded data (min avail (remainingLength st2)) st2)))"

definition readOrSkip :: "bool \<Rightarrow> stream \<Rightarrow> error + (out option \<times> stream)" where
  "readOrSkip data st =
     (if data \<and> pendingSkip st \<noteq> 0 then Inl PendingSkipNotZero
      else if outputBufferLength st \<noteq> 0 then
        Inr (Some (if data then Some (outputBufferPtr st) else None, outputBufferLength st),
             st\<lparr>outputBufferPtr := ptr_add (outputBufferPtr st) (outputBufferLength st),
                bytesReturned := bytesReturned st + outputBufferLength st,
                outputBufferLength := 0\<rparr>)
      else readBlock data st)"

subsection \<open>BackUp, skipAllPending, skip, Next\<close>

definition BackUp :: "int \<Rightarrow> stream \<Rightarrow> error + stream" where
  "BackUp count0 st =
     (if count0 < 0 then Inl NegativeCount
      else
        (let len = (if pendingSkip st > 0 then min count0 (pendingSkip st) else 0);
             st1 = st\<lparr>pendingSkip := pendingSkip st - len\<rparr>;
             count1 = count0 - len
         in if pendingSkip st > 0 \<and> count1 = 0 then Inr st1
            else if outputBufferPtr st1 = Null then Inl BackupWithoutNext
            else if state st1 = ORIGINAL \<and>
                    \<not> (ptr_le (inputBufferStart st1) (outputBufferPtr st1) \<and>
                       ptr_le (outputBufferPtr st1) (inputBufferPtrEnd st1))
                 then Inl BackupOutOfRange
            else if state st1 = ORIGINAL \<and>
                    (case ptr_diff (inputBufferPtr st1) (inputBufferStart st1) of
                       None \<Rightarrow> True
                     | Some consumed \<Rightarrow> consumed < count1)
                 then Inl BackupOutOfRange
            else Inr (st1\<lparr>outputBufferPtr := ptr_add (outputBufferPtr st1) (- count1),
                          outputBufferLength := outputBufferLength st1 + count1,
                          bytesReturned := bytesReturned st1 - count1\<rparr>)))"

partial_function (option) skipAllPending :: "stream \<Rightarrow> (error + bool \<times> stream) option" where
  "skipAllPending st =
     (if pendingSkip st > 0 then
        (case readOrSkip False st of
           Inl e \<Rightarrow> Some (Inl e)
         | Inr (None, st1) \<Rightarrow> Some (Inr (False, st1))
         | Inr (Some (d, len), st1) \<Rightarrow>
             if len > pendingSkip st1 then
               (case BackUp (len - pendingSkip st1) (st1\<lparr>pendingSkip := 0\<rparr>) of
                  Inl e \<Rightarrow> Some (Inl e)
                | Inr st2 \<Rightarrow> skipAllPending st2)
             else skipAllPending (st1\<lparr>pendingSkip := pendingSkip st1 - len\<rparr>))
      else Some (Inr (True, st)))"

definition skip :: "int \<Rightarrow> stream \<Rightarrow> error + bool \<times> stream" where
  "skip count0 st =
     (if count0 < 0 then Inl NegativeCount
      else Inr (True, st\<lparr>pendingSkip := pendingSkip st + count0\<rparr>))"

text \<open>\<^verbatim>\<open>Next\<close> is called with a non-null \<^verbatim>\<open>data\<close>; the result of \<^verbatim>\<open>skipAllPending\<close> is
  dropped, as in the source.\<close>

definition Next :: "stream \<Rightarrow> (error + out option \<times> stream) option" where
  "Next st =
     (case skipAllPending st of
        None \<Rightarrow> None
      | Some (Inl e) \<Rightarrow> Some (Inl e)
      | Some (Inr (r, st1)) \<Rightarrow> Some (readOrSkip True st1))"

subsection \<open>clearDecompressionState, seekToPosition\<close>



section \<open>Notions used in the statements\<close>

text \<open>The input cursor is well formed: the current and the end pointer both null, or all
  three pointers inside the last range handed out by the source, the first at its start
  and the last at its end.\<close>

fun range_ok :: "ptr \<Rightarrow> ptr \<Rightarrow> ptr \<Rightarrow> byte list \<Rightarrow> bool" where
  "range_ok s Null Null xs = True"
| "range_ok (Ptr InputRange s) (Ptr InputRange p) (Ptr InputRange e) xs =
     (s = 0 \<and> 0 \<le> p \<and> p \<le> e \<and> e = int (length xs))"
| "range_ok _ _ _ xs = False"

definition cursor_ok :: "stream \<Rightarrow> bool" where
  "cursor_ok st =
     range_ok (inputBufferStart st) (inputBufferPtr st) (inputBufferPtrEnd st) (inputRange st)"

text \<open>The bytes the stream has not consumed yet: the rest of the current range, then the
  chunks the source still holds.\<close>

fun range_rest :: "ptr \<Rightarrow> byte list \<Rightarrow> byte list" where
  "range_rest (Ptr InputRange p) xs = drop (nat p) xs"
| "range_rest _ xs = []"

definition upcoming :: "stream \<Rightarrow> byte list" where
  "upcoming st = range_rest (inputBufferPtr st) (inputRange st) @ concat (chunks (input st))"

text \<open>What the input side of a read (header bytes, a new range, making a block
  contiguous) leaves alone: the capabilities, the output side, the counters of returned
  and skipped bytes; and the only calls it makes are \<^verbatim>\<open>input_->Next\<close>.\<close>

definition same_frame :: "stream \<Rightarrow> stream \<Rightarrow> bool" where
  "same_frame st st' \<longleftrightarrow>
     decompressor st' = decompressor st \<and> decrypter st' = decrypter st \<and>
     outputBuffer st' = outputBuffer st \<and> decryptionBuffer st' = decryptionBuffer st \<and>
     outputBufferPtr st' = outputBufferPtr st \<and>
     outputBufferLength st' = outputBufferLength st \<and> bytesReturned st' = bytesReturned st \<and>
     lastWindowSize st' = lastWindowSize st \<and> pendingSkip st' = pendingSkip st \<and>
     (\<exists>m. calls st' = calls st @ replicate m CallInputNext)"

text \<open>A decompressor keeps its word: when it reports a length as exact, decompressing
  into a buffer of at least that capacity produces exactly that many bytes.\<close>

definition exact_lengths_hold :: "decompressor \<Rightarrow> bool" where
  "exact_lengths_hold d \<longleftrightarrow>
     (\<forall>bs cap. snd (getDecompressedLength d bs) \<longrightarrow>
        fst (getDecompressedLength d bs) \<le> cap \<longrightarrow>
        int (length (decompress d bs cap)) = fst (getDecompressedLength d bs))"

text \<open>Two streams that differ at most in the memory of the decompression buffer, in
  \<^verbatim>\<open>outputBufferPtr_\<close> and in the log of calls.\<close>

definition same_but_output :: "stream \<Rightarrow> stream \<Rightarrow> bool" where
  "same_but_output a b \<longleftrightarrow>
     b\<lparr>outputBuffer := outputBuffer a, outputBufferPtr := outputBufferPtr a,
       calls := calls a\<rparr> = a"

fun is_decompress :: "call \<Rightarrow> bool" where
  "is_decompress (CallDecompress bs cap) = True"
| "is_decompress c = False"

text \<open>
  Modelled from the spec: the writer of block headers is not among the sources. Section 6
  fixes the format: "the 3-byte block header: bit 0 = raw/compressed flag, bits 1-23 =
  block byte length", stored as \<^verbatim>\<open>byte0 | byte1<<8 | byte2<<16\<close> (section 4.1).
\<close>

definition headerWord :: "bool \<Rightarrow> nat \<Rightarrow> 32 word" where
  "headerWord isOriginal len = push_bit 1 (word_of_nat len) OR (if isOriginal then 1 else 0)"

definition encodeHeader :: "bool \<Rightarrow> nat \<Rightarrow> byte list" where
  "encodeHeader isOriginal len =
     [ucast (headerWord isOriginal len),
      ucast (drop_bit 8 (headerWord isOriginal len)),
      ucast (drop_bit 16 (headerWord isOriginal len))]"

text \<open>A source for the examples: it hands out the given chunks, and after a seek to an
  offset the rest of their concatenation from that offset on, as one chunk.\<close>

definition chunked :: "byte list list \<Rightarrow> source" where
  "chunked cs = \<lparr>chunks = cs, byteCount = 0, chunksAt = (\<lambda>off. [drop (nat off) (concat cs)])\<rparr>"




text \<open>A decompressor for the examples: every byte of the input stands for two equal bytes
  of output.\<close>

definition doubling :: decompressor where
  "doubling = \<lparr>getDecompressedLength = (\<lambda>bs. (2 * int (length bs), True)),
               decompress = (\<lambda>bs cap. concat (map (\<lambda>b. [b, b]) bs))\<rparr>"

text \<open>A stream over one raw block of seven bytes (header \<open>15 0 0\<close>), and the same stream
  after its first \<open>Next\<close> has returned the seven bytes.\<close>

definition rawBlock :: stream where
  "rawBlock = PagedInputStream (chunked [[15, 0, 0, 1, 2, 3, 4, 5, 6, 7]]) (Some doubling) None"

definition rawBlockRead :: stream where
  "rawBlockRead =
     rawBlock\<lparr>input := (chunked [[15, 0, 0, 1, 2, 3, 4, 5, 6, 7]])\<lparr>chunks := [], byteCount := 10\<rparr>,
              inputRange := [15, 0, 0, 1, 2, 3, 4, 5, 6, 7],
              state := ORIGINAL, outputBufferPtr := Ptr InputRange 10,
              inputBufferStart := Ptr InputRange 0, inputBufferPtr := Ptr InputRange 10,
              inputBufferPtrEnd := Ptr InputRange 10, bytesReturned := 7,
              lastWindowSize := 7, calls := [CallInputNext]\<rparr>"

text \<open>A decrypter for the examples: every byte is raised by one.\<close>

definition increment :: decrypter where
  "increment = map (\<lambda>b. b + 1)"

text \<open>A stream over one compressed block of three bytes (header \<open>6 0 0\<close>) that expand
  to six; the same stream after its header was read, after the block was decompressed
  and returned, and after the block was skipped without being decompressed.\<close>

definition compressedBlock :: stream where
  "compressedBlock = PagedInputStream (chunked [[6, 0, 0, 10, 20, 30]]) (Some doubling) None"

definition compressedHeader :: stream where
  "compressedHeader =
     compressedBlock\<lparr>input := (chunked [[6, 0, 0, 10, 20, 30]])\<lparr>chunks := [], byteCount := 6\<rparr>,
                     inputRange := [6, 0, 0, 10, 20, 30], state := START,
                     remainingLength := 3, inputBufferStart := Ptr InputRange 0,
                     inputBufferPtr := Ptr InputRange 3,
                     inputBufferPtrEnd := Ptr InputRange 6, calls := [CallInputNext]\<rparr>"

definition compressedSkipped :: stream where
  "compressedSkipped =
     compressedHeader\<lparr>state := HEADER, remainingLength := 0,
                      inputBufferPtr := Ptr InputRange 6, bytesReturned := 6,
                      lastWindowSize := 6,
                      calls := [CallInputNext, CallGetDecompressedLength [10, 20, 30]]\<rparr>"

definition compressedRead :: stream where
  "compressedRead =
     compressedSkipped\<lparr>outputBuffer := Some [10, 10, 20, 20, 30, 30],
                       outputBufferPtr := Ptr OutputBufferData 6,
                       calls := [CallInputNext, CallGetDecompressedLength [10, 20, 30],
                                 CallDecompress [10, 20, 30] 6]\<rparr>"

text \<open>A stream with a decrypter over one raw block of three bytes (header \<open>7 0 0\<close>) that
  the source hands out in three chunks; the same stream after its header was read and
  after the block was returned.\<close>

definition encryptedBlock :: stream where
  "encryptedBlock =
     PagedInputStream (chunked [[7, 0, 0], [1, 2], [3]]) (Some doubling) (Some increment)"

definition encryptedHeader :: stream where
  "encryptedHeader =
     encryptedBlock\<lparr>input := (chunked [[7, 0, 0], [1, 2], [3]])\<lparr>chunks := [[1, 2], [3]], byteCount := 3\<rparr>,
                    inputRange := [7, 0, 0], state := ORIGINAL, remainingLength := 3,
                    inputBufferStart := Ptr InputRange 0, inputBufferPtr := Ptr InputRange 3,
                    inputBufferPtrEnd := Ptr InputRange 3, calls := [CallInputNext]\<rparr>"

definition encryptedRead :: stream where
  "encryptedRead =
     encryptedHeader\<lparr>input := (chunked [[7, 0, 0], [1, 2], [3]])\<lparr>chunks := [], byteCount := 6\<rparr>,
                     inputRange := [3], inputBuffer := [1, 2, 3],
                     decryptionBuffer := Some [2, 3, 4], state := HEADER,
                     outputBufferPtr := Ptr DecryptionData 3, remainingLength := 0,
                     inputBufferPtr := Ptr InputRange 1, inputBufferPtrEnd := Ptr InputRange 1,
                     bytesReturned := 3, lastWindowSize := 3,
                     calls := [CallInputNext, CallInputNext, CallInputNext,
                               CallDecrypt [1, 2, 3]]\<rparr>"

text \<open>The raw stream of above after \<open>BackUp 2\<close> has rewound two of its seven bytes.\<close>

definition rawBlockRewound :: stream where
  "rawBlockRewound =
     rawBlockRead\<lparr>outputBufferPtr := Ptr InputRange 8, outputBufferLength := 2,
                  bytesReturned := 5\<rparr>"

text \<open>A decompressor whose output does not depend on how much room it is given beyond
  the length it asked for.\<close>

definition capacity_free :: "decompressor \<Rightarrow> bool" where
  "capacity_free d \<longleftrightarrow>
     (\<forall>bs cap cap'. fst (getDecompressedLength d bs) \<le> cap \<longrightarrow>
        fst (getDecompressedLength d bs) \<le> cap' \<longrightarrow>
        decompress d bs cap = decompress d bs cap')"

text \<open>A pointer that does not point into the decompression buffer.\<close>

fun off_output :: "ptr \<Rightarrow> bool" where
  "off_output (Ptr OutputBufferData i) = False"
| "off_output p = True"

text \<open>Two streams that read alike: they agree on every member but the memory of the
  decompression buffer, \<^verbatim>\<open>outputBufferPtr_\<close> and the log of calls; the input pointer is
  not inside the decompression buffer.\<close>

definition alike :: "stream \<Rightarrow> stream \<Rightarrow> bool" where
  "alike a b \<longleftrightarrow>
     input b = input a \<and> decompressor b = decompressor a \<and> decrypter b = decrypter a \<and>
     inputRange b = inputRange a \<and> inputBuffer b = inputBuffer a \<and>
     decryptionBuffer b = decryptionBuffer a \<and> state b = state a \<and>
     outputBufferLength b = outputBufferLength a \<and>
     remainingLength b = remainingLength a \<and>
     inputBufferStart b = inputBufferStart a \<and> inputBufferPtr b = inputBufferPtr a \<and>
     inputBufferPtrEnd b = inputBufferPtrEnd a \<and> bytesReturned b = bytesReturned a \<and>
     lastWindowSize b = lastWindowSize a \<and> lastHeaderOffset b = lastHeaderOffset a \<and>
     bytesReturnedAtLastHeaderOffset b = bytesReturnedAtLastHeaderOffset a \<and>
     pendingSkip b = pendingSkip a \<and> off_output (inputBufferPtr a) \<and>
     (case decompressor a of None \<Rightarrow> True | Some d \<Rightarrow> capacity_free d)"

text \<open>The last \<open>n\<close> bytes before \<^verbatim>\<open>outputBufferPtr_\<close>, which \<open>BackUp\<close> can make the replay
  window, read the same in two streams.\<close>

definition window_alike :: "int \<Rightarrow> stream \<Rightarrow> stream \<Rightarrow> bool" where
  "window_alike n a b \<longleftrightarrow>
     outputBufferPtr b = outputBufferPtr a \<and>
     (\<forall>j. 0 \<le> j \<and> j \<le> n \<longrightarrow>
        bytes_at b (ptr_add (outputBufferPtr a) (- j)) j =
        bytes_at a (ptr_add (outputBufferPtr a) (- j)) j)"

text \<open>Two streams that read alike and whose replay windows, when not empty, hold the same
  bytes.\<close>

definition replay_alike :: "stream \<Rightarrow> stream \<Rightarrow> bool" where
  "replay_alike a b \<longleftrightarrow>
     alike a b \<and>
     (outputBufferLength a \<noteq> 0 \<longrightarrow>
        outputBufferPtr b = outputBufferPtr a \<and>
        (\<forall>j. 0 \<le> j \<and> j \<le> outputBufferLength a \<longrightarrow>
           bytes_at b (ptr_add (outputBufferPtr a) (outputBufferLength a - j)) j =
           bytes_at a (ptr_add (outputBufferPtr a) (outputBufferLength a - j)) j))"

text \<open>Two reads with the same outcome: the same view or the same end of stream, and
  streams that go on to read alike.\<close>

definition read_alike :: "out option \<times> stream \<Rightarrow> out option \<times> stream \<Rightarrow> bool" where
  "read_alike x y \<longleftrightarrow>
     fst y = fst x \<and> alike (snd x) (snd y) \<and> outputBufferLength (snd x) = 0 \<and>
     (case fst x of None \<Rightarrow> True | Some (d, n) \<Rightarrow> window_alike n (snd x) (snd y))"

text \<open>Two reads that hand the caller the same: the same view (pointer, size and bytes) or
  the same end of stream, and streams that go on to read alike.\<close>

definition same_view :: "out option \<times> stream \<Rightarrow> out option \<times> stream \<Rightarrow> bool" where
  "same_view x y \<longleftrightarrow>
     fst y = fst x \<and> alike (snd x) (snd y) \<and> outputBufferLength (snd x) = 0 \<and>
     (\<forall>p n. fst x = Some (Some p, n) \<longrightarrow> bytes_at (snd y) p n = bytes_at (snd x) p n)"









section \<open>Reading header bytes\<close>

lemma cursor_ok_cases:
  assumes "cursor_ok st"
  obtains (null) "inputBufferPtr st = Null" "inputBufferPtrEnd st = Null"
  | (range) p where "inputBufferPtr st = Ptr InputRange p"
       "inputBufferPtrEnd st = Ptr InputRange (int (length (inputRange st)))"
       "inputBufferStart st = Ptr InputRange 0"
       "0 \<le> p" "p \<le> int (length (inputRange st))"
  using assms unfolding cursor_ok_def
  by (cases "(inputBufferStart st, inputBufferPtr st, inputBufferPtrEnd st, inputRange st)"
        rule: range_ok.cases) auto

lemma fetch_byte_in_range:
  assumes "inputBufferPtr st = Ptr InputRange p" "0 \<le> p"
    and "drop (nat p) (inputRange st) = b # bs"
  shows "fetch_byte st = Inr (ucast b, st\<lparr>inputBufferPtr := Ptr InputRange (p + 1)\<rparr>)"
    and "drop (nat (p + 1)) (inputRange st) = bs"
proof -
  from assms(3) have len: "nat p < length (inputRange st)"
    by (metis drop_eq_Nil2 list.distinct(1) not_le)
  have t: "take (Suc 0) (drop (nat p) (inputRange st)) = [b]"
    using assms(3) by simp
  show "fetch_byte st = Inr (ucast b, st\<lparr>inputBufferPtr := Ptr InputRange (p + 1)\<rparr>)"
    using assms(1,2) len t
    by (simp add: fetch_byte_def bytes_at_def area_bytes_def)
  have "nat (p + 1) = Suc (nat p)" using assms(2) by simp
  then show "drop (nat (p + 1)) (inputRange st) = bs"
    using assms(3) by (metis drop_Suc list.sel(3) tl_drop)
qed

lemma readByte_upcoming:
  assumes ok: "cursor_ok st" and ne: "[] \<notin> set (chunks (input st))"
    and up: "upcoming st = b # bs" and live: "state st \<noteq> END"
  shows "\<exists>st'. readByte f st = Inr (ucast b, st') \<and> upcoming st' = bs \<and> cursor_ok st' \<and>
           [] \<notin> set (chunks (input st')) \<and> state st' = state st \<and>
           remainingLength st' = remainingLength st \<and>
           lastHeaderOffset st' = lastHeaderOffset st \<and>
           bytesReturnedAtLastHeaderOffset st' = bytesReturnedAtLastHeaderOffset st \<and>
           bytesReturned st' = bytesReturned st"
proof (cases "inputBufferPtr st = inputBufferPtrEnd st")
  case False
  with ok obtain p where p: "inputBufferPtr st = Ptr InputRange p"
       "inputBufferPtrEnd st = Ptr InputRange (int (length (inputRange st)))"
       "inputBufferStart st = Ptr InputRange 0"
       "0 \<le> p" "p < int (length (inputRange st))"
    by (cases rule: cursor_ok_cases) auto
  then obtain c cs where d: "drop (nat p) (inputRange st) = c # cs"
    by (cases "drop (nat p) (inputRange st)") auto
  with up p have cb: "c = b" and bs: "bs = cs @ concat (chunks (input st))"
    by (auto simp: upcoming_def)
  from fetch_byte_in_range[OF p(1) p(4) d] False p bs cb ne show ?thesis
    by (auto simp: readByte_def upcoming_def cursor_ok_def)
next
  case True
  with ok up have up': "concat (chunks (input st)) = b # bs"
    by (cases rule: cursor_ok_cases) (auto simp: upcoming_def)
  then obtain c cs where ch: "chunks (input st) = c # cs"
    by (cases "chunks (input st)") auto
  with ne obtain c' where c: "c = b # c'" using up'
    by (cases c) auto
  define st1 where "st1 = st\<lparr>calls := calls st @ [CallInputNext],
      input := (input st)\<lparr>chunks := cs, byteCount := byteCount (input st) + int (length c)\<rparr>,
      inputRange := c, inputBufferStart := Ptr InputRange 0, inputBufferPtr := Ptr InputRange 0,
      inputBufferPtrEnd := Ptr InputRange (int (length c))\<rparr>"
  have rb: "readBuffer f st = Inr st1"
    by (simp add: readBuffer_def source_Next_def ch st1_def)
  have notend: "state st1 = state st" by (simp add: st1_def)
  have fb: "fetch_byte st1 = Inr (ucast b, st1\<lparr>inputBufferPtr := Ptr InputRange (0 + 1)\<rparr>)"
    by (rule fetch_byte_in_range(1)[where bs = c']) (simp_all add: st1_def c)
  show ?thesis using live True rb fb notend up' ch c ne
    by (auto simp: readByte_def upcoming_def cursor_ok_def st1_def)
qed

lemma no_upcoming:
  assumes "cursor_ok st" "[] \<notin> set (chunks (input st))" "upcoming st = []"
  shows "inputBufferPtr st = inputBufferPtrEnd st" and "chunks (input st) = []"
proof -
  from assms(1,3) show "inputBufferPtr st = inputBufferPtrEnd st"
    by (cases rule: cursor_ok_cases) (auto simp: upcoming_def)
  from assms(3) have "concat (chunks (input st)) = []"
    by (simp add: upcoming_def)
  with assms(2) show "chunks (input st) = []"
    by (cases "chunks (input st)") auto
qed

lemma readByte_exhausted:
  assumes "inputBufferPtr st = inputBufferPtrEnd st" "chunks (input st) = []"
  shows "readByte True st = Inl ReadPastEOF"
    and "readByte False st =
           Inr (0, st\<lparr>calls := calls st @ [CallInputNext], state := END,
                       inputBufferStart := Null, inputBufferPtr := Null,
                       inputBufferPtrEnd := Null\<rparr>)"
  using assms by (simp_all add: readByte_def readBuffer_def source_Next_def)

lemma readHeader_exhausted:
  assumes "inputBufferPtr st = inputBufferPtrEnd st" "chunks (input st) = []"
  shows "readHeader st =
           Inr (st\<lparr>calls := calls st @ [CallInputNext], state := END,
                   inputBufferStart := Null, inputBufferPtr := Null,
                   inputBufferPtrEnd := Null,
                   lastHeaderOffset := source_ByteCount (input st) - 1,
                   bytesReturnedAtLastHeaderOffset := bytesReturned st,
                   remainingLength := 0\<rparr>)"
  using readByte_exhausted(2)[OF assms]
  by (simp add: readHeader_def)

lemma cursor_ok_diff:
  "cursor_ok st \<Longrightarrow> \<exists>d. ptr_diff (inputBufferPtrEnd st) (inputBufferPtr st) = Some d \<and> 0 \<le> d"
  by (cases rule: cursor_ok_cases) auto

lemma readHeader_truncated:
  assumes ok: "cursor_ok st" and ne: "[] \<notin> set (chunks (input st))"
    and live: "state st \<noteq> END"
    and up: "upcoming st = [b0] \<or> upcoming st = [b0, b1]"
  shows "readHeader st = Inl ReadPastEOF"
proof -
  from up obtain bs where up0: "upcoming st = b0 # bs" and bs: "bs = [] \<or> bs = [b1]"
    by auto
  from readByte_upcoming[OF ok ne up0 live, of False] obtain st1 where
    r1: "readByte False st = Inr (ucast b0, st1)" and u1: "upcoming st1 = bs"
    and ok1: "cursor_ok st1" and ne1: "[] \<notin> set (chunks (input st1))"
    and s1: "state st1 = state st"
    by blast
  from cursor_ok_diff[OF ok1] obtain d where
    d: "ptr_diff (inputBufferPtrEnd st1) (inputBufferPtr st1) = Some d" by blast
  define st2 where "st2 = st1\<lparr>lastHeaderOffset := source_ByteCount (input st1) - d - 1,
                              bytesReturnedAtLastHeaderOffset := bytesReturned st1\<rparr>"
  have ok2: "cursor_ok st2" and ne2: "[] \<notin> set (chunks (input st2))"
    and u2: "upcoming st2 = bs" and s2: "state st2 \<noteq> END"
    using ok1 ne1 u1 s1 live
    by (simp_all add: st2_def cursor_ok_def upcoming_def)
  have rh: "readHeader st =
      (case readByte True st2 of Inl e \<Rightarrow> Inl e
       | Inr (b1, st3) \<Rightarrow> (case readByte True st3 of Inl e \<Rightarrow> Inl e
          | Inr (b2, st4) \<Rightarrow>
              let header = ucast b0 OR push_bit 8 b1 OR push_bit 16 b2
              in Inr (st4\<lparr>state := (if header AND 1 \<noteq> 0 then ORIGINAL else START),
                          remainingLength := uint (drop_bit 1 header)\<rparr>)))"
    using r1 d s2 by (simp add: readHeader_def st2_def Let_def)
  from bs show ?thesis
  proof
    assume "bs = []"
    with no_upcoming[OF ok2 ne2] u2 readByte_exhausted(1)[of st2] show ?thesis
      by (simp add: rh)
  next
    assume b: "bs = [b1]"
    from readByte_upcoming[OF ok2 ne2 _ s2, of b1 "[]" True] u2 b obtain st3 where
      r3: "readByte True st2 = Inr (ucast b1, st3)" and u3: "upcoming st3 = []"
      and ok3: "cursor_ok st3" and ne3: "[] \<notin> set (chunks (input st3))"
      by auto
    from no_upcoming[OF ok3 ne3 u3] readByte_exhausted(1)[of st3] r3 show ?thesis
      by (simp add: rh)
  qed
qed

lemma readHeader_decodes:
  assumes ok: "cursor_ok st" and ne: "[] \<notin> set (chunks (input st))"
    and live: "state st \<noteq> END"
    and up: "upcoming st = b0 # b1 # b2 # rest"
  shows "\<exists>st'. readHeader st = Inr st' \<and>
           state st' = (if bit (ucast b0 OR push_bit 8 (ucast b1) OR push_bit 16 (ucast b2) :: 32 word) 0
                        then ORIGINAL else START) \<and>
           remainingLength st' =
             uint (drop_bit 1 (ucast b0 OR push_bit 8 (ucast b1) OR push_bit 16 (ucast b2) :: 32 word)) \<and>
           upcoming st' = rest \<and> cursor_ok st' \<and> [] \<notin> set (chunks (input st')) \<and>
           bytesReturnedAtLastHeaderOffset st' = bytesReturned st"
proof -
  from readByte_upcoming[OF ok ne up live, of False] obtain st1 where
    r1: "readByte False st = Inr (ucast b0, st1)" and u1: "upcoming st1 = b1 # b2 # rest"
    and ok1: "cursor_ok st1" and ne1: "[] \<notin> set (chunks (input st1))"
    and s1: "state st1 = state st" and f1: "bytesReturned st1 = bytesReturned st"
    by blast
  from cursor_ok_diff[OF ok1] obtain d where
    d: "ptr_diff (inputBufferPtrEnd st1) (inputBufferPtr st1) = Some d" by blast
  define st2 where "st2 = st1\<lparr>lastHeaderOffset := source_ByteCount (input st1) - d - 1,
                              bytesReturnedAtLastHeaderOffset := bytesReturned st1\<rparr>"
  have ok2: "cursor_ok st2" and ne2: "[] \<notin> set (chunks (input st2))"
    and u2: "upcoming st2 = b1 # b2 # rest" and s2: "state st2 \<noteq> END"
    and h2: "bytesReturnedAtLastHeaderOffset st2 = bytesReturned st"
    using ok1 ne1 u1 s1 live f1 by (simp_all add: st2_def cursor_ok_def upcoming_def)
  from readByte_upcoming[OF ok2 ne2 u2 s2, of True] obtain st3 where
    r3: "readByte True st2 = Inr (ucast b1, st3)" and u3: "upcoming st3 = b2 # rest"
    and ok3: "cursor_ok st3" and ne3: "[] \<notin> set (chunks (input st3))"
    and s3: "state st3 = state st2"
    and h3: "bytesReturnedAtLastHeaderOffset st3 = bytesReturnedAtLastHeaderOffset st2"
    by blast
  from s2 s3 have s3': "state st3 \<noteq> END" by simp
  from readByte_upcoming[OF ok3 ne3 u3 s3', of True] obtain st4 where
    r4: "readByte True st3 = Inr (ucast b2, st4)" and u4: "upcoming st4 = rest"
    and ok4: "cursor_ok st4" and ne4: "[] \<notin> set (chunks (input st4))"
    and h4: "bytesReturnedAtLastHeaderOffset st4 = bytesReturnedAtLastHeaderOffset st3"
    by blast
  let ?h = "ucast b0 OR push_bit 8 (ucast b1) OR push_bit 16 (ucast b2) :: 32 word"
  have b: "(?h AND 1 \<noteq> 0) = bit ?h 0"
    by (simp add: and_one_eq bit_0 mod_2_eq_odd)
  have rh: "readHeader st =
      Inr (st4\<lparr>state := (if ?h AND 1 \<noteq> 0 then ORIGINAL else START),
              remainingLength := uint (drop_bit 1 ?h)\<rparr>)"
    using r1 d s2 r3 r4 by (simp add: readHeader_def st2_def Let_def)
  show ?thesis
    unfolding rh using u4 ok4 ne4 h2 h3 h4
    by (simp add: b cursor_ok_def upcoming_def)
qed

subsection \<open>The header word\<close>

lemma bit_small_nat: "len < 2 ^ 23 \<Longrightarrow> bit (len::nat) n \<Longrightarrow> n < 23"
  by (metis bit_take_bit_iff take_bit_nat_eq_self)

lemma bit_headerWord_Suc:
  assumes "len < 2 ^ 23" 
  shows "bit (headerWord o1 len) (Suc m) \<longleftrightarrow> (m < 23 \<and> bit len m)"
proof -
  have "bit (headerWord o1 len) (Suc m) \<longleftrightarrow> bit (push_bit 1 (word_of_nat len :: 32 word)) (Suc m)"
    by (cases o1) (simp_all only: headerWord_def bit_or_iff bit_1_iff if_True if_False bit_0_eq, simp_all)
  also have "\<dots> \<longleftrightarrow> Suc m < 32 \<and> bit len m"
    apply (simp only: bit_push_bit_iff bit_of_nat_iff possible_bit_word)
    apply auto
    done
  also have "\<dots> \<longleftrightarrow> m < 23 \<and> bit len m"
    using bit_small_nat[OF assms, of m] by auto
  finally show ?thesis .
qed

lemma bit_headerWord_0: "bit (headerWord o1 len) 0 \<longleftrightarrow> o1"
  by (simp add: headerWord_def bit_or_iff bit_0 even_or_iff)

lemma bit_headerWord:
  assumes "len < 2 ^ 23"
  shows "bit (headerWord o1 len) n \<longleftrightarrow> (if n = 0 then o1 else n < 24 \<and> bit len (n - 1))"
  using bit_headerWord_Suc[OF assms, of o1 "n - 1"] bit_headerWord_0[of o1 len]
  by (cases n) auto

lemma recombine:
  assumes "len < 2 ^ 23"
  shows "(ucast (ucast (headerWord o1 len) :: 8 word) :: 32 word) OR push_bit 8 (ucast (ucast (drop_bit 8 (headerWord o1 len)) :: 8 word))
     OR push_bit 16 (ucast (ucast (drop_bit 16 (headerWord o1 len)) :: 8 word)) = headerWord o1 len"
proof (rule bit_word_eqI)
  fix n assume n: "n < LENGTH(32)"
  have c: "n < 8 \<or> (8 \<le> n \<and> n < 16) \<or> (16 \<le> n \<and> n < 24) \<or> 24 \<le> n" by arith
  have h: "24 \<le> n \<Longrightarrow> \<not> bit (headerWord o1 len) n"
    using bit_headerWord[OF assms, of o1 n] by auto
  show "bit ((ucast (ucast (headerWord o1 len) :: 8 word) :: 32 word) OR push_bit 8 (ucast (ucast (drop_bit 8 (headerWord o1 len)) :: 8 word))
     OR push_bit 16 (ucast (ucast (drop_bit 16 (headerWord o1 len)) :: 8 word))) n = bit (headerWord o1 len) n"
    using n c h
    apply (simp only: bit_or_iff bit_push_bit_iff bit_ucast_iff bit_drop_bit_eq possible_bit_word)
    apply auto
    done
qed

lemma headerWord_flag: "(headerWord o1 len AND 1 \<noteq> 0) = o1"
  using bit_headerWord_0[of o1 len]
  by (simp add: and_one_eq bit_0 mod_2_eq_odd)

lemma headerWord_len: 
  assumes "len < 2 ^ 23" shows "uint (drop_bit 1 (headerWord o1 len)) = int len"
proof -
  have "drop_bit 1 (headerWord o1 len) = (word_of_nat len :: 32 word)"
  proof (rule bit_word_eqI)
    fix n assume "n < LENGTH(32)"
    then show "bit (drop_bit 1 (headerWord o1 len)) n = bit (word_of_nat len :: 32 word) n"
      using bit_small_nat[OF assms, of n] bit_headerWord_Suc[OF assms, of o1 n]
      apply (simp only: bit_drop_bit_eq bit_of_nat_iff possible_bit_word plus_1_eq_Suc)
      apply auto
      done
  qed
  moreover have "uint (word_of_nat len :: 32 word) = int len"
    using assms 
    apply (simp add: uint_nat unat_of_nat)
    done
  ultimately show ?thesis by simp
qed

section \<open>Draining the pending skip\<close>

lemma skipAllPending_none_pending:
  "pendingSkip st \<le> 0 \<Longrightarrow> skipAllPending st = Some (Inr (True, st))"
  by (subst skipAllPending.simps) simp

section \<open>What the input side of a read leaves alone\<close>

lemma same_frame_refl: "same_frame st st"
  unfolding same_frame_def by (auto intro: exI[of _ "0::nat"])

lemma same_frame_trans:
  assumes "same_frame a b" and "same_frame b c"
  shows "same_frame a c"
proof -
  from assms obtain m n where "calls b = calls a @ replicate m CallInputNext"
    "calls c = calls b @ replicate n CallInputNext"
    unfolding same_frame_def by blast
  then have "calls c = calls a @ replicate (m + n) CallInputNext"
    by (simp add: replicate_add)
  with assms show ?thesis unfolding same_frame_def by auto
qed

lemma same_frame_one:
  assumes "decompressor st' = decompressor st" "decrypter st' = decrypter st"
     "outputBuffer st' = outputBuffer st" "decryptionBuffer st' = decryptionBuffer st"
     "outputBufferPtr st' = outputBufferPtr st"
     "outputBufferLength st' = outputBufferLength st" "bytesReturned st' = bytesReturned st"
     "lastWindowSize st' = lastWindowSize st" "pendingSkip st' = pendingSkip st"
     "calls st' = calls st @ [CallInputNext]"
  shows "same_frame st st'"
  unfolding same_frame_def using assms by (auto intro: exI[of _ "Suc 0"])

lemma same_frame_none:
  assumes "decompressor st' = decompressor st" "decrypter st' = decrypter st"
     "outputBuffer st' = outputBuffer st" "decryptionBuffer st' = decryptionBuffer st"
     "outputBufferPtr st' = outputBufferPtr st"
     "outputBufferLength st' = outputBufferLength st" "bytesReturned st' = bytesReturned st"
     "lastWindowSize st' = lastWindowSize st" "pendingSkip st' = pendingSkip st"
     "calls st' = calls st"
  shows "same_frame st st'"
  unfolding same_frame_def using assms by (auto intro: exI[of _ "0::nat"])

lemma readBuffer_same_frame: "readBuffer f st = Inr st' \<Longrightarrow> same_frame st st'"
  by (rule same_frame_one) (auto simp: readBuffer_def split: option.splits if_splits)

lemma fetch_byte_same_frame: "fetch_byte st = Inr (b, st') \<Longrightarrow> same_frame st st'"
  by (rule same_frame_none) (auto simp: fetch_byte_def split: option.splits list.splits)

lemma readByte_same_frame:
  assumes "readByte f st = Inr (b, st')" shows "same_frame st st'"
proof (cases "inputBufferPtr st = inputBufferPtrEnd st")
  case False
  with assms show ?thesis by (simp add: readByte_def fetch_byte_same_frame)
next
  case True
  with assms obtain st1 where r: "readBuffer f st = Inr st1"
    and c: "(if state st1 = END then Inr (0, st1) else fetch_byte st1) = Inr (b, st')"
    by (auto simp: readByte_def split: sum.splits)
  from c have "same_frame st1 st'"
    by (auto simp: same_frame_refl fetch_byte_same_frame split: if_splits)
  with readBuffer_same_frame[OF r] show ?thesis by (rule same_frame_trans)
qed

lemma readHeader_Inr:
  assumes "readHeader st = Inr st'"
  obtains (eof) b0 st1 d where "readByte False st = Inr (b0, st1)" "state st1 = END"
      "ptr_diff (inputBufferPtrEnd st1) (inputBufferPtr st1) = Some d"
      "st' = st1\<lparr>lastHeaderOffset := source_ByteCount (input st1) - d - 1,
                 bytesReturnedAtLastHeaderOffset := bytesReturned st1,
                 remainingLength := 0\<rparr>"
  | (header) b0 st1 d b1 st3 b2 st4 where "readByte False st = Inr (b0, st1)"
      "state st1 \<noteq> END"
      "ptr_diff (inputBufferPtrEnd st1) (inputBufferPtr st1) = Some d"
      "readByte True (st1\<lparr>lastHeaderOffset := source_ByteCount (input st1) - d - 1,
                 bytesReturnedAtLastHeaderOffset := bytesReturned st1\<rparr>) = Inr (b1, st3)"
      "readByte True st3 = Inr (b2, st4)"
      "st' = st4\<lparr>state := (if (b0 OR push_bit 8 b1 OR push_bit 16 b2) AND 1 \<noteq> 0
                             then ORIGINAL else START),
                 remainingLength := uint (drop_bit 1 (b0 OR push_bit 8 b1 OR push_bit 16 b2))\<rparr>"
proof -
  from assms obtain b0 st1 where r1: "readByte False st = Inr (b0, st1)"
    by (auto simp: readHeader_def split: sum.splits)
  with assms obtain d where d: "ptr_diff (inputBufferPtrEnd st1) (inputBufferPtr st1) = Some d"
    by (auto simp: readHeader_def split: option.splits)
  show thesis
  proof (cases "state st1 = END")
    case True
    with assms r1 d have "st' = st1\<lparr>lastHeaderOffset := source_ByteCount (input st1) - d - 1,
                 bytesReturnedAtLastHeaderOffset := bytesReturned st1,
                 remainingLength := 0\<rparr>"
      by (simp add: readHeader_def Let_def)
    with r1 True d show thesis by (rule eof)
  next
    case False
    let ?stB = "st1\<lparr>lastHeaderOffset := source_ByteCount (input st1) - d - 1,
                 bytesReturnedAtLastHeaderOffset := bytesReturned st1\<rparr>"
    from assms r1 d False obtain b1 st3 where r3: "readByte True ?stB = Inr (b1, st3)"
      by (auto simp: readHeader_def Let_def split: sum.splits)
    with assms r1 d False obtain b2 st4 where r4: "readByte True st3 = Inr (b2, st4)"
      by (auto simp: readHeader_def Let_def split: sum.splits)
    with assms r1 d False r3 have "st' = st4\<lparr>state := (if (b0 OR push_bit 8 b1 OR push_bit 16 b2) AND 1 \<noteq> 0
                             then ORIGINAL else START),
                 remainingLength := uint (drop_bit 1 (b0 OR push_bit 8 b1 OR push_bit 16 b2))\<rparr>"
      by (simp add: readHeader_def Let_def)
    with r1 False d r3 r4 show thesis by (rule header)
  qed
qed

lemma same_frame_update:
  assumes "same_frame st st1"
    and "decompressor st' = decompressor st1" "decrypter st' = decrypter st1"
     "outputBuffer st' = outputBuffer st1" "decryptionBuffer st' = decryptionBuffer st1"
     "outputBufferPtr st' = outputBufferPtr st1"
     "outputBufferLength st' = outputBufferLength st1" "bytesReturned st' = bytesReturned st1"
     "lastWindowSize st' = lastWindowSize st1" "pendingSkip st' = pendingSkip st1"
     "calls st' = calls st1"
  shows "same_frame st st'"
  using assms(1) same_frame_none[OF assms(2-11)] by (rule same_frame_trans)

lemma readHeader_same_frame:
  assumes "readHeader st = Inr st'" shows "same_frame st st'"
  using assms
proof (cases rule: readHeader_Inr)
  case (eof b0 st1 d)
  from readByte_same_frame[OF eof(1)] show ?thesis
    by (rule same_frame_update) (simp_all add: eof(4))
next
  case (header b0 st1 d b1 st3 b2 st4)
  have "same_frame st1 (st1\<lparr>lastHeaderOffset := source_ByteCount (input st1) - d - 1,
                 bytesReturnedAtLastHeaderOffset := bytesReturned st1\<rparr>)"
    by (rule same_frame_none) simp_all
  from same_frame_trans[OF readByte_same_frame[OF header(1)] this]
    readByte_same_frame[OF header(4)] have "same_frame st st3" by (rule same_frame_trans)
  from this readByte_same_frame[OF header(5)] have "same_frame st st4" by (rule same_frame_trans)
  then show ?thesis
    by (rule same_frame_update) (simp_all add: header(6))
qed

lemma readHeader_state:
  assumes "readHeader st = Inr st'" shows "state st' \<noteq> HEADER"
  using assms
  by (cases rule: readHeader_Inr) simp_all

lemma headerStage_same_frame: "headerStage st = Inr st' \<Longrightarrow> same_frame st st'"
  by (auto simp: headerStage_def same_frame_refl readHeader_same_frame split: if_splits)

lemma headerStage_state: "headerStage st = Inr st' \<Longrightarrow> state st' \<noteq> HEADER"
  by (auto simp: headerStage_def readHeader_state split: if_splits)

lemma rangeStage_same_frame: "rangeStage st = Inr st' \<Longrightarrow> same_frame st st'"
  by (auto simp: rangeStage_def same_frame_refl readBuffer_same_frame split: if_splits)

lemma rangeStage_state: "rangeStage st = Inr st' \<Longrightarrow> state st' = state st \<and> remainingLength st' = remainingLength st"
  by (auto simp: rangeStage_def readBuffer_def split: if_splits option.splits)

lemma ensureInput_loop_same_frame:
  "ensureInput_loop pos st = Inr st' \<Longrightarrow>
   same_frame st st' \<and> state st' = state st \<and> remainingLength st' = remainingLength st"
proof (induction pos st rule: ensureInput_loop.induct)
  case (1 pos st)
  show ?case
  proof (cases "pos < remainingLength st")
    case False
    with "1.prems" show ?thesis by (simp add: ensureInput_loop.simps same_frame_refl)
  next
    case True
    with "1.prems" obtain st1 where r: "readBuffer True st = Inr st1"
      by (subst (asm) ensureInput_loop.simps) (auto split: sum.splits)
    with True "1.prems" obtain avail where a: "availableInput st1 = Some avail"
      by (subst (asm) ensureInput_loop.simps) (auto split: option.splits)
    with True r "1.prems" obtain bs where
      b: "bytes_at st1 (inputBufferPtr st1) (min avail (remainingLength st1 - pos)) = Some bs"
      by (subst (asm) ensureInput_loop.simps) (auto split: option.splits)
    let ?stB = "st1\<lparr>inputBuffer := copy_to (inputBuffer st1) pos bs,
                    inputBufferPtr := ptr_add (inputBufferPtr st1)
                                        (min avail (remainingLength st1 - pos))\<rparr>"
    from True r a b "1.prems" have
      l: "ensureInput_loop (pos + min avail (remainingLength st1 - pos)) ?stB = Inr st'"
      by (subst (asm) ensureInput_loop.simps) simp
    from "1.IH"[OF True r a b l] have
      ih: "same_frame ?stB st'" "state st' = state st1" "remainingLength st' = remainingLength st1"
      by simp_all
    have "same_frame st1 ?stB" by (rule same_frame_none) simp_all
    with readBuffer_same_frame[OF r] have "same_frame st ?stB" by (rule same_frame_trans)
    from this ih(1) have "same_frame st st'" by (rule same_frame_trans)
    moreover from r have "state st1 = state st" "remainingLength st1 = remainingLength st"
      by (auto simp: readBuffer_def split: option.splits)
    ultimately show ?thesis using ih by simp
  qed
qed

lemma ensureInput_same_frame:
  assumes "ensureInput a st = Inr (i, st')"
  shows "same_frame st st'" and "state st' = state st"
    and "remainingLength st' = remainingLength st"
proof -
  have "same_frame st st' \<and> state st' = state st \<and> remainingLength st' = remainingLength st"
  proof (cases "remainingLength st \<le> a")
    case True
    with assms have "st' = st\<lparr>inputBufferPtr := ptr_add (inputBufferPtr st) a\<rparr>"
      by (auto simp: ensureInput_def)
    then show ?thesis by (simp add: same_frame_none)
  next
    case False
    define st1 where "st1 = (if int (length (inputBuffer st)) < remainingLength st
                    then st\<lparr>inputBuffer := reserve (inputBuffer st) (remainingLength st)\<rparr>
                    else st)"
    from False assms obtain bs where b: "bytes_at st1 (inputBufferPtr st1) a = Some bs"
      unfolding ensureInput_def Let_def st1_def by (auto split: option.splits)
    let ?stB = "st1\<lparr>inputBuffer := copy_to (inputBuffer st1) 0 bs,
                    inputBufferPtr := ptr_add (inputBufferPtr st1) a\<rparr>"
    from False assms b have l: "ensureInput_loop a ?stB = Inr st'"
      unfolding ensureInput_def Let_def st1_def by (auto split: sum.splits)
    have "same_frame st ?stB" by (rule same_frame_none) (simp_all add: st1_def)
    moreover have "state ?stB = state st" "remainingLength ?stB = remainingLength st"
      by (simp_all add: st1_def)
    ultimately show ?thesis
      using ensureInput_loop_same_frame[OF l] by (auto intro: same_frame_trans)
  qed
  then show "same_frame st st'" and "state st' = state st"
    and "remainingLength st' = remainingLength st" by simp_all
qed

section \<open>The stages of a read, taken apart\<close>

lemma readBlock_Inr:
  assumes "readBlock data st = Inr (r, st')"
  obtains (eof) "headerStage (st\<lparr>decryptionBuffer := None\<rparr>) = Inr st'" "state st' = END"
      "r = None"
  | (original) st1 st2 avail where "headerStage (st\<lparr>decryptionBuffer := None\<rparr>) = Inr st1"
      "state st1 \<noteq> END" "rangeStage st1 = Inr st2" "availableInput st2 = Some avail"
      "decrypter st2 = None" "state st2 = ORIGINAL"
      "readOriginal data (min avail (remainingLength st2)) st2 = Inr (r, st')"
  | (encoded) st1 st2 avail where "headerStage (st\<lparr>decryptionBuffer := None\<rparr>) = Inr st1"
      "state st1 \<noteq> END" "rangeStage st1 = Inr st2" "availableInput st2 = Some avail"
      "\<not> (decrypter st2 = None \<and> state st2 = ORIGINAL)"
      "readEncoded data (min avail (remainingLength st2)) st2 = Inr (r, st')"
proof -
  from assms obtain st1 where h: "headerStage (st\<lparr>decryptionBuffer := None\<rparr>) = Inr st1"
    by (auto simp: readBlock_def split: sum.splits)
  show thesis
  proof (cases "state st1 = END")
    case True
    with assms h have "r = None" "st' = st1" by (simp_all add: readBlock_def)
    with h True show thesis by (intro eof) simp_all
  next
    case False
    with assms h obtain st2 where g: "rangeStage st1 = Inr st2"
      by (auto simp: readBlock_def split: sum.splits)
    with assms h False obtain avail where a: "availableInput st2 = Some avail"
      by (auto simp: readBlock_def split: option.splits)
    show thesis
    proof (cases "decrypter st2 = None \<and> state st2 = ORIGINAL")
      case True
      with assms h False g a
      have "readOriginal data (min avail (remainingLength st2)) st2 = Inr (r, st')"
        by (simp add: readBlock_def)
      with h False g a True show thesis by (intro original) simp_all
    next
      case ne: False
      with assms h False g a
      have "readEncoded data (min avail (remainingLength st2)) st2 = Inr (r, st')"
        by (simp add: readBlock_def)
      with h False g a ne show thesis by (intro encoded)
    qed
  qed
qed

lemma readEncoded_Inr:
  assumes "readEncoded data a st = Inr (r, st')"
  obtains i1 st3 i2 out2 st4 out3 st5 where "ensureInput a st = Inr (i1, st3)"
    "decryptBlock data i1 (None, 0) st3 = Inr (i2, out2, st4)"
    "decompressBlock data i2 out2 st4 = Inr (out3, st5)"
    "r = Some out3"
    "st' = st5\<lparr>remainingLength := 0, state := HEADER, outputBufferLength := 0,
               bytesReturned := bytesReturned st5 + snd out3, lastWindowSize := snd out3\<rparr>"
proof -
  from assms obtain i1 st3 where e: "ensureInput a st = Inr (i1, st3)"
    by (auto simp: readEncoded_def split: sum.splits)
  with assms obtain i2 out2 st4 where d: "decryptBlock data i1 (None, 0) st3 = Inr (i2, out2, st4)"
    by (auto simp: readEncoded_def split: sum.splits)
  with assms e obtain out3 st5 where c: "decompressBlock data i2 out2 st4 = Inr (out3, st5)"
    by (auto simp: readEncoded_def split: sum.splits)
  with assms e d have "r = Some out3"
    "st' = st5\<lparr>remainingLength := 0, state := HEADER, outputBufferLength := 0,
               bytesReturned := bytesReturned st5 + snd out3, lastWindowSize := snd out3\<rparr>"
    by (auto simp: readEncoded_def finishRead_def)
  with e d c show thesis by (rule that)
qed

section \<open>The pending skip is not read by the stages of a read\<close>

lemma availableInput_pendingSkip [simp]:
  "availableInput (st\<lparr>pendingSkip := k\<rparr>) = availableInput st"
  by (simp add: availableInput_def)

lemma bytes_at_pendingSkip [simp]: "bytes_at (st\<lparr>pendingSkip := k\<rparr>) p n = bytes_at st p n"
  by (simp add: bytes_at_def area_bytes_def)

lemma readBuffer_pendingSkip:
  "readBuffer f (st\<lparr>pendingSkip := k\<rparr>) = map_sum id (\<lambda>t. t\<lparr>pendingSkip := k\<rparr>) (readBuffer f st)"
  by (simp add: readBuffer_def split: option.splits)

lemma fetch_byte_pendingSkip:
  "fetch_byte (st\<lparr>pendingSkip := k\<rparr>) =
     map_sum id (map_prod id (\<lambda>t. t\<lparr>pendingSkip := k\<rparr>)) (fetch_byte st)"
  by (simp add: fetch_byte_def bytes_at_def area_bytes_def split: option.splits list.splits)

lemma readByte_pendingSkip:
  "readByte f (st\<lparr>pendingSkip := k\<rparr>) =
     map_sum id (map_prod id (\<lambda>t. t\<lparr>pendingSkip := k\<rparr>)) (readByte f st)"
  by (cases "readBuffer f st")
     (simp_all add: readByte_def readBuffer_pendingSkip fetch_byte_pendingSkip)

lemma readHeader_pendingSkip:
  "readHeader (st\<lparr>pendingSkip := k\<rparr>) = map_sum id (\<lambda>t. t\<lparr>pendingSkip := k\<rparr>) (readHeader st)"
proof (cases "readByte False st")
  case (Inl e)
  then show ?thesis by (simp add: readHeader_def readByte_pendingSkip)
next
  case (Inr r)
  obtain b0 st1 where r: "r = (b0, st1)" by (cases r)
  show ?thesis
  proof (cases "ptr_diff (inputBufferPtrEnd st1) (inputBufferPtr st1)")
    case None
    with Inr r show ?thesis by (simp add: readHeader_def readByte_pendingSkip)
  next
    case (Some d)
    let ?stB = "st1\<lparr>lastHeaderOffset := source_ByteCount (input st1) - d - 1,
                     bytesReturnedAtLastHeaderOffset := bytesReturned st1\<rparr>"
    have c: "?stB\<lparr>pendingSkip := k\<rparr> = st1\<lparr>pendingSkip := k,
        lastHeaderOffset := source_ByteCount (input st1) - d - 1,
        bytesReturnedAtLastHeaderOffset := bytesReturned st1\<rparr>" by simp
    show ?thesis
    proof (cases "readByte True ?stB")
      case (Inl e)
      with Inr r Some show ?thesis
        using readByte_pendingSkip[where f = True and st = "?stB" and k = k]
        by (simp add: readHeader_def readByte_pendingSkip[where f = False] Let_def c)
    next
      case r2: (Inr r')
      obtain b1 st3 where r': "r' = (b1, st3)" by (cases r')
      show ?thesis
        using Inr r Some r2 r' readByte_pendingSkip[where f = True and st = "?stB" and k = k]
        by (cases "readByte True st3")
           (auto simp: readHeader_def readByte_pendingSkip[where f = False] 
              readByte_pendingSkip[where f = True and st = st3] Let_def c)
    qed
  qed
qed

lemma headerStage_pendingSkip:
  "headerStage (st\<lparr>pendingSkip := k\<rparr>) = map_sum id (\<lambda>t. t\<lparr>pendingSkip := k\<rparr>) (headerStage st)"
  by (simp add: headerStage_def readHeader_pendingSkip)

lemma rangeStage_pendingSkip:
  "rangeStage (st\<lparr>pendingSkip := k\<rparr>) = map_sum id (\<lambda>t. t\<lparr>pendingSkip := k\<rparr>) (rangeStage st)"
  by (simp add: rangeStage_def readBuffer_pendingSkip)

lemma ensureInput_loop_pendingSkip:
  "ensureInput_loop pos (st\<lparr>pendingSkip := k\<rparr>) =
     map_sum id (\<lambda>t. t\<lparr>pendingSkip := k\<rparr>) (ensureInput_loop pos st)"
proof (induction pos st rule: ensureInput_loop.induct)
  case (1 pos st)
  show ?case
  proof (cases "pos < remainingLength st")
    case False
    then show ?thesis by (simp add: ensureInput_loop.simps)
  next
    case True
    show ?thesis
    proof (cases "readBuffer True st")
      case (Inl e)
      with True show ?thesis
        by (subst ensureInput_loop.simps, subst (2) ensureInput_loop.simps)
           (simp add: readBuffer_pendingSkip)
    next
      case (Inr st1)
      show ?thesis
      proof (cases "availableInput st1")
        case None
        with True Inr show ?thesis
          by (subst ensureInput_loop.simps, subst (2) ensureInput_loop.simps)
             (simp add: readBuffer_pendingSkip)
      next
        case (Some avail)
        show ?thesis
        proof (cases "bytes_at st1 (inputBufferPtr st1) (min avail (remainingLength st1 - pos))")
          case None
          with True Inr Some show ?thesis
            by (subst ensureInput_loop.simps, subst (2) ensureInput_loop.simps)
               (simp add: readBuffer_pendingSkip)
        next
          case bs: (Some bs)
          have eq: "st1\<lparr>pendingSkip := k,
                       inputBuffer := copy_to (inputBuffer st1) pos bs,
                       inputBufferPtr := ptr_add (inputBufferPtr st1)
                                           (min avail (remainingLength st1 - pos))\<rparr> =
                    st1\<lparr>inputBuffer := copy_to (inputBuffer st1) pos bs,
                       inputBufferPtr := ptr_add (inputBufferPtr st1)
                                           (min avail (remainingLength st1 - pos)),
                       pendingSkip := k\<rparr>"
            by simp
          from "1.IH"[OF True Inr Some bs] True Inr Some bs show ?thesis
            by (subst ensureInput_loop.simps, subst (2) ensureInput_loop.simps)
               (simp add: readBuffer_pendingSkip eq id_def)
        qed
      qed
    qed
  qed
qed

lemma ensureInput_pendingSkip:
  "ensureInput a (st\<lparr>pendingSkip := k\<rparr>) =
     map_sum id (map_prod id (\<lambda>t. t\<lparr>pendingSkip := k\<rparr>)) (ensureInput a st)"
proof (cases "remainingLength st \<le> a")
  case True
  then show ?thesis by (simp add: ensureInput_def)
next
  case False
  define st1 where "st1 = (if int (length (inputBuffer st)) < remainingLength st
                    then st\<lparr>inputBuffer := reserve (inputBuffer st) (remainingLength st)\<rparr>
                    else st)"
  have s1: "(if int (length (inputBuffer (st\<lparr>pendingSkip := k\<rparr>))) < remainingLength (st\<lparr>pendingSkip := k\<rparr>)
                    then st\<lparr>pendingSkip := k, inputBuffer := reserve (inputBuffer (st\<lparr>pendingSkip := k\<rparr>)) (remainingLength (st\<lparr>pendingSkip := k\<rparr>))\<rparr>
                    else st\<lparr>pendingSkip := k\<rparr>) = st1\<lparr>pendingSkip := k\<rparr>"
    by (simp add: st1_def)
  have e1: "ensureInput a st =
      (case bytes_at st1 (inputBufferPtr st1) a of
              None \<Rightarrow> Inl UndefinedBehaviour
            | Some bs \<Rightarrow>
                (case ensureInput_loop a
                        (st1\<lparr>inputBuffer := copy_to (inputBuffer st1) 0 bs,
                             inputBufferPtr := ptr_add (inputBufferPtr st1) a\<rparr>) of
                   Inl e \<Rightarrow> Inl e
                 | Inr st2 \<Rightarrow> Inr (Ptr InputBufferData 0, st2)))"
    using False unfolding ensureInput_def Let_def st1_def by simp
  have e2: "ensureInput a (st\<lparr>pendingSkip := k\<rparr>) =
      (case bytes_at st1 (inputBufferPtr st1) a of
              None \<Rightarrow> Inl UndefinedBehaviour
            | Some bs \<Rightarrow>
                (case ensureInput_loop a
                        (st1\<lparr>inputBuffer := copy_to (inputBuffer st1) 0 bs,
                             inputBufferPtr := ptr_add (inputBufferPtr st1) a,
                             pendingSkip := k\<rparr>) of
                   Inl e \<Rightarrow> Inl e
                 | Inr st2 \<Rightarrow> Inr (Ptr InputBufferData 0, st2)))"
  proof -
    have eq: "\<And>bs. st1\<lparr>pendingSkip := k, inputBuffer := copy_to (inputBuffer st1) 0 bs,
                       inputBufferPtr := ptr_add (inputBufferPtr st1) a\<rparr> =
              st1\<lparr>inputBuffer := copy_to (inputBuffer st1) 0 bs,
                       inputBufferPtr := ptr_add (inputBufferPtr st1) a, pendingSkip := k\<rparr>"
      by simp
    show ?thesis
      using False unfolding ensureInput_def Let_def s1
      by (simp add: eq cong: option.case_cong)
  qed
  show ?thesis
    unfolding e1 e2 ensureInput_loop_pendingSkip
    by (simp split: option.splits sum.splits)
qed

lemma headerStage_skip:
  "headerStage st = Inr st1 \<Longrightarrow> headerStage (st\<lparr>pendingSkip := k\<rparr>) = Inr (st1\<lparr>pendingSkip := k\<rparr>)"
  by (simp add: headerStage_pendingSkip)

lemma rangeStage_skip:
  "rangeStage st = Inr st1 \<Longrightarrow> rangeStage (st\<lparr>pendingSkip := k\<rparr>) = Inr (st1\<lparr>pendingSkip := k\<rparr>)"
  by (simp add: rangeStage_pendingSkip)

lemma ensureInput_skip:
  "ensureInput a st = Inr (i, st1) \<Longrightarrow>
   ensureInput a (st\<lparr>pendingSkip := k\<rparr>) = Inr (i, st1\<lparr>pendingSkip := k\<rparr>)"
  by (simp add: ensureInput_pendingSkip)

lemma readOriginal_skip:
  assumes "readOriginal True a st = Inr (Some (Some p, n), st1)"
  shows "readOriginal False a (st\<lparr>pendingSkip := k\<rparr>) = Inr (Some (None, n), st1\<lparr>pendingSkip := k\<rparr>)"
  using assms by (auto simp: readOriginal_def finishRead_def)

lemma decryptBlock_skip:
  assumes "decryptBlock True i (None, 0) st = Inr (i2, out2, st1)"
  shows "decryptBlock False i (None, 0) (st\<lparr>pendingSkip := k\<rparr>) =
           Inr (i2, (None, snd out2), st1\<lparr>pendingSkip := k\<rparr>)"
proof (cases "decrypter st")
  case None
  with assms show ?thesis by (auto simp: decryptBlock_def)
next
  case (Some dec)
  with assms show ?thesis
    by (cases "bytes_at st i (remainingLength st)") (auto simp: decryptBlock_def Let_def)
qed

lemma prepareOutputBuffer_pendingSkip:
  "prepareOutputBuffer n (st\<lparr>pendingSkip := k\<rparr>) = (prepareOutputBuffer n st)\<lparr>pendingSkip := k\<rparr>"
  by (simp add: prepareOutputBuffer_def split: option.splits)

lemma prepareOutputBuffer_capacity:
  "\<exists>buf. outputBuffer (prepareOutputBuffer n st) = Some buf \<and> n \<le> int (length buf)"
  by (auto simp: prepareOutputBuffer_def split: option.splits)

section \<open>The decompression stage\<close>

lemma decompressBlock_other:
  "state st \<noteq> START \<Longrightarrow> decompressBlock data i out0 st = Inr (out0, st)"
  by (simp add: decompressBlock_def)

lemma decompressBlock_START:
  assumes "state st = START" and "decompressor st = Some d" and "i \<noteq> Null"
    and "bytes_at st i (remainingLength st) = Some bs"
  shows "decompressBlock data i out0 st =
     (if \<not> data \<and> snd (getDecompressedLength d bs) \<and>
         fst (getDecompressedLength d bs) \<le> pendingSkip st
      then Inr ((fst out0, fst (getDecompressedLength d bs)),
                st\<lparr>calls := calls st @ [CallGetDecompressedLength bs],
                   outputBufferPtr := Null, decryptionBuffer := None\<rparr>)
      else
        (case outputBuffer (prepareOutputBuffer (fst (getDecompressedLength d bs)) st) of
           None \<Rightarrow> Inl UndefinedBehaviour
         | Some buf \<Rightarrow>
             Inr ((if data then Some (Ptr OutputBufferData 0) else fst out0,
                   int (length (decompress d bs (int (length buf))))),
                  (prepareOutputBuffer (fst (getDecompressedLength d bs)) st)
                  \<lparr>calls := calls st @ [CallGetDecompressedLength bs,
                                        CallDecompress bs (int (length buf))],
                    outputBuffer := Some (copy_to buf 0 (decompress d bs (int (length buf)))),
                    outputBufferLength := int (length (decompress d bs (int (length buf)))),
                    outputBufferPtr :=
                      Ptr OutputBufferData (int (length (decompress d bs (int (length buf))))),
                    decryptionBuffer := None\<rparr>)))"
  using assms
  by (simp add: decompressBlock_def Let_def prepareOutputBuffer_def split: option.splits)

lemma decompressBlock_Inr_START:
  assumes "decompressBlock data i out0 st = Inr r" and "state st = START"
  obtains d bs where "decompressor st = Some d" "i \<noteq> Null"
    "bytes_at st i (remainingLength st) = Some bs"
  using assms
  by (auto simp: decompressBlock_def split: option.splits if_splits)

section \<open>BackUp and seekToPosition\<close>

lemma BackUp_absorbed:
  assumes "0 \<le> n" "0 < pendingSkip st" "n \<le> pendingSkip st"
  shows "BackUp n st = Inr (st\<lparr>pendingSkip := pendingSkip st - n\<rparr>)"
  using assms by (simp add: BackUp_def Let_def)

lemma BackUp_rewinds:
  assumes "0 \<le> n" "0 \<le> pendingSkip st" "\<not> (0 < pendingSkip st \<and> n \<le> pendingSkip st)"
    and "BackUp n st = Inr st'"
  shows "st' = st\<lparr>pendingSkip := 0,
      outputBufferPtr := ptr_add (outputBufferPtr st) (- (n - pendingSkip st)),
      outputBufferLength := outputBufferLength st + (n - pendingSkip st),
      bytesReturned := bytesReturned st - (n - pendingSkip st)\<rparr>"
proof -
  from assms(1-3) have m: "(if pendingSkip st > 0 then min n (pendingSkip st) else 0) = pendingSkip st"
    by auto
  from assms(1-3) have c: "\<not> (pendingSkip st > 0 \<and> n - pendingSkip st = 0)" by auto
  from assms(4) show ?thesis
    unfolding BackUp_def Let_def m using c assms(1)
    by (simp split: if_splits)
qed



section \<open>The example stream\<close>

lemma Next_rawBlock: "Next rawBlock = Some (Inr (Some (Some (Ptr InputRange 3), 7), rawBlockRead))"
  by (simp add: Next_def skipAllPending_none_pending rawBlock_def rawBlockRead_def
      PagedInputStream_def chunked_def readOrSkip_def readBlock_def headerStage_def
      rangeStage_def readOriginal_def readHeader_def readByte_def
      readBuffer_def source_Next_def fetch_byte_def bytes_at_def area_bytes_def
      source_ByteCount_def availableInput_def finishRead_def Let_def)

lemma BackUp_example:
  "BackUp 5 (rawBlockRead\<lparr>pendingSkip := 3\<rparr>) =
     Inr (rawBlockRead\<lparr>pendingSkip := 0, outputBufferPtr := Ptr InputRange 8,
                       outputBufferLength := 2, bytesReturned := 5\<rparr>)"
  by (simp add: BackUp_def rawBlockRead_def rawBlock_def PagedInputStream_def Let_def)

section \<open>What a read that returned a view leaves behind\<close>

lemma decryptBlock_Inr:
  assumes "decryptBlock data i out0 st = Inr (i2, out2, st4)"
  obtains (plain) "decrypter st = None" "i2 = i" "out2 = out0" "st4 = st"
  | (decrypted) dec bs where "decrypter st = Some dec"
      "bytes_at st i (remainingLength st) = Some bs" "i2 = Ptr DecryptionData 0"
      "out2 = (if data then Some (Ptr DecryptionData 0) else fst out0, int (length (dec bs)))"
      "st4 = st\<lparr>calls := calls st @ [CallDecrypt bs], decryptionBuffer := Some (dec bs),
                remainingLength := int (length (dec bs)),
                outputBufferPtr := Ptr DecryptionData (int (length (dec bs)))\<rparr>"
proof (cases "decrypter st")
  case None
  with assms show thesis by (intro plain) (auto simp: decryptBlock_def)
next
  case (Some dec)
  with assms obtain bs where b: "bytes_at st i (remainingLength st) = Some bs"
    by (auto simp: decryptBlock_def split: option.splits)
  with assms Some show thesis
    by (intro decrypted[of dec bs]) (auto simp: decryptBlock_def Let_def)
qed

lemma decompressBlock_Inr:
  assumes "decompressBlock data i out0 st = Inr (out3, st5)"
  obtains (other) "state st \<noteq> START" "out3 = out0" "st5 = st"
  | (elided) d bs where "state st = START" "decompressor st = Some d" "i \<noteq> Null"
      "bytes_at st i (remainingLength st) = Some bs"
      "\<not> data" "snd (getDecompressedLength d bs)"
      "fst (getDecompressedLength d bs) \<le> pendingSkip st"
      "out3 = (fst out0, fst (getDecompressedLength d bs))"
      "st5 = st\<lparr>calls := calls st @ [CallGetDecompressedLength bs],
                outputBufferPtr := Null, decryptionBuffer := None\<rparr>"
  | (decompressed) d bs buf where "state st = START" "decompressor st = Some d" "i \<noteq> Null"
      "bytes_at st i (remainingLength st) = Some bs"
      "\<not> (\<not> data \<and> snd (getDecompressedLength d bs) \<and>
          fst (getDecompressedLength d bs) \<le> pendingSkip st)"
      "outputBuffer (prepareOutputBuffer (fst (getDecompressedLength d bs)) st) = Some buf"
      "out3 = (if data then Some (Ptr OutputBufferData 0) else fst out0,
               int (length (decompress d bs (int (length buf)))))"
      "st5 = (prepareOutputBuffer (fst (getDecompressedLength d bs)) st)
                  \<lparr>calls := calls st @ [CallGetDecompressedLength bs,
                                        CallDecompress bs (int (length buf))],
                    outputBuffer := Some (copy_to buf 0 (decompress d bs (int (length buf)))),
                    outputBufferLength := int (length (decompress d bs (int (length buf)))),
                    outputBufferPtr :=
                      Ptr OutputBufferData (int (length (decompress d bs (int (length buf))))),
                    decryptionBuffer := None\<rparr>"
proof (cases "state st = START")
  case False
  with assms show thesis by (intro other) (simp_all add: decompressBlock_other)
next
  case True
  from decompressBlock_Inr_START[OF assms True] obtain d bs where
    f: "decompressor st = Some d" "i \<noteq> Null" "bytes_at st i (remainingLength st) = Some bs"
    by blast
  note eq = decompressBlock_START[OF True f, of data out0]
  show thesis
  proof (cases "\<not> data \<and> snd (getDecompressedLength d bs) \<and>
         fst (getDecompressedLength d bs) \<le> pendingSkip st")
    case e: True
    with assms eq True f show thesis by (intro elided[of d bs]) simp_all
  next
    case ne: False
    from prepareOutputBuffer_capacity[of "fst (getDecompressedLength d bs)" st]
    obtain buf where
      b: "outputBuffer (prepareOutputBuffer (fst (getDecompressedLength d bs)) st) = Some buf"
      by blast
    from assms have "Inr (out3, st5) = decompressBlock data i out0 st" by simp
    also note eq
    finally have "out3 = (if data then Some (Ptr OutputBufferData 0) else fst out0,
               int (length (decompress d bs (int (length buf)))))"
      "st5 = (prepareOutputBuffer (fst (getDecompressedLength d bs)) st)
                  \<lparr>calls := calls st @ [CallGetDecompressedLength bs,
                                        CallDecompress bs (int (length buf))],
                    outputBuffer := Some (copy_to buf 0 (decompress d bs (int (length buf)))),
                    outputBufferLength := int (length (decompress d bs (int (length buf)))),
                    outputBufferPtr :=
                      Ptr OutputBufferData (int (length (decompress d bs (int (length buf))))),
                    decryptionBuffer := None\<rparr>"
      using ne b by simp_all
    with True f ne b show thesis by (intro decompressed[of d bs buf])
  qed
qed

lemma same_frameD:
  assumes "same_frame st st'"
  shows "decompressor st' = decompressor st" "decrypter st' = decrypter st"
     "outputBuffer st' = outputBuffer st" "decryptionBuffer st' = decryptionBuffer st"
     "outputBufferPtr st' = outputBufferPtr st"
     "outputBufferLength st' = outputBufferLength st" "bytesReturned st' = bytesReturned st"
     "lastWindowSize st' = lastWindowSize st" "pendingSkip st' = pendingSkip st"
  using assms unfolding same_frame_def by simp_all

lemma decryptBlock_keeps:
  assumes "decryptBlock data i out0 st = Inr (i2, out2, st4)"
  shows "pendingSkip st4 = pendingSkip st" "decompressor st4 = decompressor st"
    "decrypter st4 = decrypter st" "state st4 = state st" "outputBuffer st4 = outputBuffer st"
    "bytesReturned st4 = bytesReturned st" "input st4 = input st"
  using assms by (cases rule: decryptBlock_Inr; simp)+

lemma prepareOutputBuffer_keeps:
  "pendingSkip (prepareOutputBuffer n st) = pendingSkip st"
  "decompressor (prepareOutputBuffer n st) = decompressor st"
  "decrypter (prepareOutputBuffer n st) = decrypter st"
  "state (prepareOutputBuffer n st) = state st"
  "bytesReturned (prepareOutputBuffer n st) = bytesReturned st"
  "calls (prepareOutputBuffer n st) = calls st"
  "input (prepareOutputBuffer n st) = input st"
  "remainingLength (prepareOutputBuffer n st) = remainingLength st"
  by (simp_all add: prepareOutputBuffer_def split: option.splits)

lemma decompressBlock_keeps:
  assumes "decompressBlock data i out0 st = Inr (out3, st5)"
  shows "pendingSkip st5 = pendingSkip st" "decompressor st5 = decompressor st"
    "decrypter st5 = decrypter st" "state st5 = state st"
    "bytesReturned st5 = bytesReturned st" "input st5 = input st"
  using assms by (cases rule: decompressBlock_Inr; simp add: prepareOutputBuffer_keeps)+

lemma readBlock_keeps:
  assumes "readBlock data st = Inr (r, st')"
  shows "pendingSkip st' = pendingSkip st" and "decompressor st' = decompressor st"
    and "decrypter st' = decrypter st"
proof -
  have k: "pendingSkip st' = pendingSkip st \<and> decompressor st' = decompressor st \<and>
    decrypter st' = decrypter st"
    using assms
  proof (cases rule: readBlock_Inr)
    case eof
    from same_frameD[OF headerStage_same_frame[OF eof(1)]] show ?thesis by simp
  next
    case (original st1 st2 avail)
    from same_frameD[OF headerStage_same_frame[OF original(1)]]
      same_frameD[OF rangeStage_same_frame[OF original(3)]] original(7)
    show ?thesis by (auto simp: readOriginal_def finishRead_def)
  next
    case (encoded st1 st2 avail)
    from encoded(6) show ?thesis
    proof (cases rule: readEncoded_Inr)
      case (1 i1 st3 i2 out2 st4 out3 st5)
      from same_frameD[OF headerStage_same_frame[OF encoded(1)]]
        same_frameD[OF rangeStage_same_frame[OF encoded(3)]]
        same_frameD[OF ensureInput_same_frame(1)[OF 1(1)]]
        decryptBlock_keeps[OF 1(2)] decompressBlock_keeps[OF 1(3)] 1(5)
      show ?thesis by simp
    qed
  qed
  from k show "pendingSkip st' = pendingSkip st" and "decompressor st' = decompressor st"
    and "decrypter st' = decrypter st" by simp_all
qed

lemma readOrSkip_keeps:
  assumes "readOrSkip data st = Inr (r, st')"
  shows "pendingSkip st' = pendingSkip st" and "decompressor st' = decompressor st"
    and "decrypter st' = decrypter st"
proof -
  have "pendingSkip st' = pendingSkip st \<and> decompressor st' = decompressor st \<and>
    decrypter st' = decrypter st"
  proof (cases "outputBufferLength st \<noteq> 0")
    case True
    with assms show ?thesis by (auto simp: readOrSkip_def split: if_splits)
  next
    case False
    with assms have "readBlock data st = Inr (r, st')"
      by (auto simp: readOrSkip_def split: if_splits)
    from readBlock_keeps[OF this] show ?thesis by simp
  qed
  then show "pendingSkip st' = pendingSkip st" and "decompressor st' = decompressor st"
    and "decrypter st' = decrypter st" by simp_all
qed

lemma rangeStage_ptr:
  assumes "rangeStage st = Inr st'" and "availableInput st' = Some avail"
  shows "inputBufferPtr st' \<noteq> Null"
proof (cases "inputBufferPtr st = inputBufferPtrEnd st")
  case True
  with assms(1) show ?thesis
    by (auto simp: rangeStage_def readBuffer_def split: option.splits)
next
  case False
  with assms(1) have "st' = st" by (simp add: rangeStage_def)
  with False assms(2) show ?thesis
    by (cases "inputBufferPtrEnd st'"; cases "inputBufferPtr st'")
       (auto simp: availableInput_def)
qed

lemma readBlock_view:
  assumes "readBlock True st = Inr (Some (Some p, n), st')"
  shows "outputBufferPtr st' = ptr_add p n" and "outputBufferLength st' = 0" and "p \<noteq> Null"
proof -
  have "outputBufferPtr st' = ptr_add p n \<and> outputBufferLength st' = 0 \<and> p \<noteq> Null"
    using assms
  proof (cases rule: readBlock_Inr)
    case eof
    then show ?thesis by simp
  next
    case (original st1 st2 avail)
    from rangeStage_ptr[OF original(3,4)] original(7) show ?thesis
      by (auto simp: readOriginal_def finishRead_def)
  next
    case (encoded st1 st2 avail)
    from encoded(6) show ?thesis
    proof (cases rule: readEncoded_Inr)
      case (1 i1 st3 i2 out2 st4 out3 st5)
      from 1(4) have o3: "out3 = (Some p, n)" by simp
      from 1(3) show ?thesis
      proof (cases rule: decompressBlock_Inr)
        case other
        from 1(2) show ?thesis
        proof (cases rule: decryptBlock_Inr)
          case plain
          with other o3 show ?thesis by simp
        next
          case (decrypted dec bs)
          with other o3 1(5) show ?thesis by auto
        qed
      next
        case (elided d bs)
        then show ?thesis by simp
      next
        case (decompressed d bs buf)
        with o3 1(5) show ?thesis by auto
      qed
    qed
  qed
  then show "outputBufferPtr st' = ptr_add p n" and "outputBufferLength st' = 0"
    and "p \<noteq> Null" by simp_all
qed


lemma readOrSkip_view:
  assumes "readOrSkip True st = Inr (Some (Some p, n), st')"
  shows "outputBufferPtr st' = ptr_add p n" and "outputBufferLength st' = 0"
    and "pendingSkip st' = 0"
proof -
  from assms have z: "pendingSkip st = 0" by (auto simp: readOrSkip_def split: if_splits)
  with readOrSkip_keeps(1)[OF assms] show "pendingSkip st' = 0" by simp
  have "outputBufferPtr st' = ptr_add p n \<and> outputBufferLength st' = 0"
  proof (cases "outputBufferLength st \<noteq> 0")
    case True
    with assms z show ?thesis by (auto simp: readOrSkip_def)
  next
    case False
    with assms z have "readBlock True st = Inr (Some (Some p, n), st')"
      by (simp add: readOrSkip_def)
    from readBlock_view[OF this] show ?thesis by simp
  qed
  then show "outputBufferPtr st' = ptr_add p n" and "outputBufferLength st' = 0"
    by simp_all
qed

lemma ptr_add_add: "ptr_add (ptr_add p a) b = ptr_add p (a + b)"
  by (cases p) simp_all

lemma bytes_at_length: "bytes_at st p n = Some bs \<Longrightarrow> int (length bs) = n"
  by (cases p) (auto simp: bytes_at_def split: option.splits if_splits)

lemma replicate_no_decompress: "\<not> list_ex is_decompress (replicate m CallInputNext)"
  by (induction m) simp_all

text \<open>The stages before decryption, in one step.\<close>

lemma input_stages:
  assumes "headerStage (st\<lparr>decryptionBuffer := None\<rparr>) = Inr st1"
    and "rangeStage st1 = Inr st2" and "ensureInput a st2 = Inr (i1, st3)"
  shows "same_frame (st\<lparr>decryptionBuffer := None\<rparr>) st3" and "state st3 = state st1"
    and "remainingLength st3 = remainingLength st1"
proof -
  from headerStage_same_frame[OF assms(1)] rangeStage_same_frame[OF assms(2)]
  have "same_frame (st\<lparr>decryptionBuffer := None\<rparr>) st2" by (rule same_frame_trans)
  from this ensureInput_same_frame(1)[OF assms(3)]
  show "same_frame (st\<lparr>decryptionBuffer := None\<rparr>) st3" by (rule same_frame_trans)
  from rangeStage_state[OF assms(2)] ensureInput_same_frame(2,3)[OF assms(3)]
  show "state st3 = state st1" and "remainingLength st3 = remainingLength st1" by simp_all
qed

section \<open>Making a block contiguous\<close>

lemma length_copy_to:
  "0 \<le> pos \<Longrightarrow> nat pos + length bs \<le> length buf \<Longrightarrow> length (copy_to buf pos bs) = length buf"
  by (simp add: copy_to_def)

lemma take_copy_to:
  "0 \<le> pos \<Longrightarrow> nat pos + length bs \<le> length buf \<Longrightarrow>
   take (nat pos + length bs) (copy_to buf pos bs) = take (nat pos) buf @ bs"
  by (simp add: copy_to_def)

lemma take_split_chunk:
  fixes c X :: "'a list"
  assumes "n = min (length c) a"
  shows "take a (c @ X) = take n c @ take (a - n) (drop n c @ X)"
    and "drop a (c @ X) = drop (a - n) (drop n c @ X)"
proof -
  have n: "n \<le> length c" "n \<le> a" using assms by simp_all
  have "take a (c @ X) = take (n + (a - n)) (c @ X)" using n by simp
  also have "\<dots> = take n (c @ X) @ take (a - n) (drop n (c @ X))" by (rule take_add)
  finally show "take a (c @ X) = take n c @ take (a - n) (drop n c @ X)" using n by simp
  have "drop (a - n) (drop n c @ X) = drop (a - n) (drop n (c @ X))" using n by simp
  also have "\<dots> = drop a (c @ X)" using n by simp
  finally show "drop a (c @ X) = drop (a - n) (drop n c @ X)" by simp
qed

lemma readBuffer_True_Inr:
  assumes "readBuffer True st = Inr st1"
  obtains c cs where "chunks (input st) = c # cs"
    "st1 = st\<lparr>calls := calls st @ [CallInputNext],
              input := (input st)\<lparr>chunks := cs, byteCount := byteCount (input st) + int (length c)\<rparr>,
              inputRange := c, inputBufferStart := Ptr InputRange 0,
              inputBufferPtr := Ptr InputRange 0,
              inputBufferPtrEnd := Ptr InputRange (int (length c))\<rparr>"
  using assms
  by (auto simp: readBuffer_def source_Next_def split: list.splits)

lemma ensureInput_loop_contiguous:
  assumes "ensureInput_loop pos st = Inr st'"
    and "0 \<le> pos" and "pos \<le> remainingLength st"
    and "remainingLength st \<le> int (length (inputBuffer st))"
    and "pos < remainingLength st \<longrightarrow> range_rest (inputBufferPtr st) (inputRange st) = []"
    and "cursor_ok st"
  shows "take (nat (remainingLength st)) (inputBuffer st') =
           take (nat pos) (inputBuffer st) @ take (nat (remainingLength st - pos)) (upcoming st) \<and>
         upcoming st' = drop (nat (remainingLength st - pos)) (upcoming st) \<and>
         cursor_ok st' \<and> length (inputBuffer st') = length (inputBuffer st) \<and>
         nat (remainingLength st - pos) \<le> length (upcoming st)"
  using assms
proof (induction pos st rule: ensureInput_loop.induct)
  case (1 pos st)
  show ?case
  proof (cases "pos < remainingLength st")
    case False
    with "1.prems" have "st' = st" "pos = remainingLength st"
      by (simp_all add: ensureInput_loop.simps)
    with "1.prems" show ?thesis by simp
  next
    case True
    with "1.prems" obtain st1 where r: "readBuffer True st = Inr st1"
      by (subst (asm) ensureInput_loop.simps) (auto split: sum.splits)
    from r obtain c cs where ch: "chunks (input st) = c # cs" and
      st1: "st1 = st\<lparr>calls := calls st @ [CallInputNext],
              input := (input st)\<lparr>chunks := cs, byteCount := byteCount (input st) + int (length c)\<rparr>,
              inputRange := c, inputBufferStart := Ptr InputRange 0,
              inputBufferPtr := Ptr InputRange 0,
              inputBufferPtrEnd := Ptr InputRange (int (length c))\<rparr>"
      by (rule readBuffer_True_Inr)
    have a: "availableInput st1 = Some (int (length c))"
      by (simp add: st1 availableInput_def)
    define n where "n = min (int (length c)) (remainingLength st - pos)"
    have n0: "0 \<le> n" "n \<le> int (length c)" "n \<le> remainingLength st - pos"
      using True by (simp_all add: n_def)
    have rem1: "remainingLength st1 = remainingLength st" by (simp add: st1)
    have b: "bytes_at st1 (inputBufferPtr st1) (min (int (length c)) (remainingLength st1 - pos)) =
             Some (take (nat n) c)"
      using n0 by (simp add: st1 bytes_at_def area_bytes_def n_def)
    let ?stB = "st1\<lparr>inputBuffer := copy_to (inputBuffer st1) pos (take (nat n) c),
                    inputBufferPtr := ptr_add (inputBufferPtr st1)
                       (min (int (length c)) (remainingLength st1 - pos))\<rparr>"
    from True r a b "1.prems"(1) have
      l: "ensureInput_loop (pos + min (int (length c)) (remainingLength st1 - pos)) ?stB = Inr st'"
      by (subst (asm) ensureInput_loop.simps) simp
    have lenb: "nat pos + length (take (nat n) c) \<le> length (inputBuffer st)"
      using n0 "1.prems"(2,3,4) True by simp
    have len1: "length (inputBuffer ?stB) = length (inputBuffer st)"
      using length_copy_to[OF "1.prems"(2) lenb] by (simp add: st1)
    have p1: "0 \<le> pos + min (int (length c)) (remainingLength st1 - pos)"
      using n0 "1.prems"(2) by (simp add: rem1 n_def[symmetric])
    have p2: "pos + min (int (length c)) (remainingLength st1 - pos) \<le> remainingLength ?stB"
      using n0 by (simp add: rem1 n_def[symmetric] st1)
    have p3: "remainingLength ?stB \<le> int (length (inputBuffer ?stB))"
      using "1.prems"(4) len1 by (simp add: st1)
    have p4: "pos + min (int (length c)) (remainingLength st1 - pos) < remainingLength ?stB \<longrightarrow>
              range_rest (inputBufferPtr ?stB) (inputRange ?stB) = []"
      using n0 by (auto simp: rem1 st1 n_def)
    have p5: "cursor_ok ?stB"
      using n0 by (simp add: st1 cursor_ok_def n_def[symmetric] rem1)
    note ih = "1.IH"[OF True r a b l p1 p2 p3 p4 p5]
    from "1.prems"(5) True have up: "upcoming st = c @ concat cs"
      by (simp add: upcoming_def ch)
    have upB: "upcoming ?stB = drop (nat n) c @ concat cs"
      using n0 by (simp add: st1 upcoming_def n_def[symmetric] rem1)
    have remB: "remainingLength ?stB = remainingLength st" by (simp add: st1)
    define a' where "a' = nat (remainingLength st - pos)"
    have nn: "nat n = min (length c) a'" using n0 True by (simp add: n_def a'_def)
    have sub: "nat (remainingLength st - (pos + n)) = a' - nat n"
      using n0 True by (simp add: a'_def)
    have tk: "take (nat (pos + n)) (inputBuffer ?stB) = take (nat pos) (inputBuffer st) @ take (nat n) c"
    proof -
      have "nat (pos + n) = nat pos + length (take (nat n) c)"
        using n0 "1.prems"(2) by (simp add: nat_add_distrib)
      then show ?thesis
        using take_copy_to[OF "1.prems"(2) lenb] by (simp add: st1)
    qed
    from ih have
      i1: "take (nat (remainingLength st)) (inputBuffer st') =
           take (nat (pos + n)) (inputBuffer ?stB) @ take (a' - nat n) (upcoming ?stB)"
      and i2: "upcoming st' = drop (a' - nat n) (upcoming ?stB)"
      and i3: "cursor_ok st'" and i4: "length (inputBuffer st') = length (inputBuffer ?stB)"
      and i5: "a' - nat n \<le> length (upcoming ?stB)"
      by (simp_all add: remB rem1 n_def[symmetric] sub)
    have "take (nat (remainingLength st)) (inputBuffer st') =
           take (nat pos) (inputBuffer st) @ take a' (upcoming st)"
      unfolding i1 tk upB up using take_split_chunk(1)[OF nn, of "concat cs"] by simp
    moreover have "upcoming st' = drop a' (upcoming st)"
      unfolding i2 upB up using take_split_chunk(2)[OF nn, of "concat cs"] by simp
    moreover have "a' \<le> length (upcoming st)"
      using i5 nn unfolding upB up by auto
    ultimately show ?thesis using i3 i4 len1 by (simp add: a'_def)
  qed
qed

lemma length_reserve: "length (reserve buf n) = max (length buf) (nat n)"
  by (simp add: reserve_def)

lemma ensureInput_contiguous:
  assumes e: "ensureInput a st = Inr (i, st')" and ok: "cursor_ok st"
    and av: "availableInput st = Some avail" and a: "a = min avail (remainingLength st)"
    and r0: "0 \<le> remainingLength st"
  shows "\<exists>bs. bytes_at st' i (remainingLength st) = Some bs \<and>
              upcoming st = bs @ upcoming st' \<and> cursor_ok st'"
proof (cases "remainingLength st \<le> a")
  case True
  with a have ar: "a = remainingLength st" "remainingLength st \<le> avail" by simp_all
  from True e have i: "i = inputBufferPtr st"
    and st': "st' = st\<lparr>inputBufferPtr := ptr_add (inputBufferPtr st) a\<rparr>"
    by (auto simp: ensureInput_def)
  from ok show ?thesis
  proof (cases rule: cursor_ok_cases)
    case null
    with av have "avail = 0" by (simp add: availableInput_def)
    with ar r0 have "remainingLength st = 0" by simp
    with null i st' ok show ?thesis
      by (simp add: bytes_at_def upcoming_def cursor_ok_def)
  next
    case (range q)
    with av have avq: "avail = int (length (inputRange st)) - q"
      by (simp add: availableInput_def split: if_splits)
    define m where "m = nat (remainingLength st)"
    have m: "nat q + m \<le> length (inputRange st)" "nat (q + remainingLength st) = nat q + m"
      using ar avq range r0 by (simp_all add: m_def nat_add_distrib)
    have "bytes_at st' i (remainingLength st) = Some (take m (drop (nat q) (inputRange st)))"
      using range ar avq r0 by (simp add: i st' bytes_at_def area_bytes_def m_def)
    moreover have "upcoming st = take m (drop (nat q) (inputRange st)) @ upcoming st'"
    proof -
      have "drop (nat q) (inputRange st) =
            take m (drop (nat q) (inputRange st)) @ drop (m + nat q) (inputRange st)"
        by (metis append_take_drop_id drop_drop)
      with range m show ?thesis
        by (simp add: st' upcoming_def ar add.commute)
    qed
    moreover have "cursor_ok st'"
      using range ar avq r0 by (simp add: st' cursor_ok_def)
    ultimately show ?thesis by blast
  qed
next
  case False
  with a have aa: "a = avail" "avail < remainingLength st" by simp_all
  define st1 where "st1 = (if int (length (inputBuffer st)) < remainingLength st
                    then st\<lparr>inputBuffer := reserve (inputBuffer st) (remainingLength st)\<rparr>
                    else st)"
  have len1: "remainingLength st \<le> int (length (inputBuffer st1))"
    by (simp add: st1_def length_reserve)
  have same1: "inputBufferPtr st1 = inputBufferPtr st" "inputRange st1 = inputRange st"
    "inputBufferPtrEnd st1 = inputBufferPtrEnd st" "inputBufferStart st1 = inputBufferStart st"
    "input st1 = input st" "remainingLength st1 = remainingLength st"
    by (simp_all add: st1_def)
  from False e obtain bs0 where b: "bytes_at st1 (inputBufferPtr st1) a = Some bs0"
    unfolding ensureInput_def Let_def st1_def by (auto split: option.splits)
  let ?stB = "st1\<lparr>inputBuffer := copy_to (inputBuffer st1) 0 bs0,
                  inputBufferPtr := ptr_add (inputBufferPtr st1) a\<rparr>"
  from False e b have l: "ensureInput_loop a ?stB = Inr st'" and i: "i = Ptr InputBufferData 0"
    unfolding ensureInput_def Let_def st1_def by (auto split: sum.splits)
  have a0: "0 \<le> a" using av aa by (auto simp: availableInput_def split: option.splits if_splits)
  from bytes_at_length[OF b] have lb: "int (length bs0) = a" .
  have rest: "range_rest (inputBufferPtr st) (inputRange st) = bs0 \<and>
              range_rest (ptr_add (inputBufferPtr st) a) (inputRange st) = [] \<and>
              cursor_ok ?stB"
    using ok
  proof (cases rule: cursor_ok_cases)
    case null
    with av aa b show ?thesis
      by (simp add: availableInput_def bytes_at_def same1 cursor_ok_def)
  next
    case (range q)
    with av aa have avq: "a = int (length (inputRange st)) - q"
      by (simp add: availableInput_def split: if_splits)
    with range b show ?thesis
      by (auto simp: bytes_at_def area_bytes_def same1 cursor_ok_def st1_def split: if_splits)
  qed
  have lenB: "length (inputBuffer ?stB) = length (inputBuffer st1)"
    using length_copy_to[of 0 bs0 "inputBuffer st1"] lb len1 aa by simp
  have q1: "(0::int) \<le> a" by (rule a0)
  have q2: "a \<le> remainingLength ?stB" using aa by (simp add: same1)
  have q3: "remainingLength ?stB \<le> int (length (inputBuffer ?stB))"
    using len1 lenB by (simp add: same1)
  have q4: "a < remainingLength ?stB \<longrightarrow>
            range_rest (inputBufferPtr ?stB) (inputRange ?stB) = []"
    using rest by (simp add: same1)
  from rest have q5: "cursor_ok ?stB" by simp
  from ensureInput_loop_contiguous[OF l q1 q2 q3 q4 q5] have
    c1: "take (nat (remainingLength st)) (inputBuffer st') =
           take (nat a) (inputBuffer ?stB) @ take (nat (remainingLength st - a)) (upcoming ?stB)"
    and c2: "upcoming st' = drop (nat (remainingLength st - a)) (upcoming ?stB)"
    and c3: "cursor_ok st'" and c4: "length (inputBuffer st') = length (inputBuffer ?stB)"
    by (simp_all add: same1)
  have tk: "take (nat a) (inputBuffer ?stB) = bs0"
  proof -
    from lb have "nat a = length bs0" by simp
    then show ?thesis
      using take_copy_to[of 0 bs0 "inputBuffer st1"] lb len1 aa by simp
  qed
  have upB: "upcoming ?stB = concat (chunks (input st))"
    using rest by (simp add: upcoming_def same1)
  have up: "upcoming st = bs0 @ concat (chunks (input st))"
    using rest by (simp add: upcoming_def)
  have "bytes_at st' i (remainingLength st) = Some (take (nat (remainingLength st)) (inputBuffer st'))"
    using r0 len1 lenB c4 by (simp add: i bytes_at_def area_bytes_def)
  moreover have "upcoming st = take (nat (remainingLength st)) (inputBuffer st') @ upcoming st'"
    unfolding c1 c2 tk upB up by simp
  ultimately show ?thesis using c3 by blast
qed

section \<open>The cursor stays well formed\<close>

lemma readBuffer_cursor_ok: "readBuffer f st = Inr st' \<Longrightarrow> cursor_ok st'"
  by (auto simp: readBuffer_def cursor_ok_def split: option.splits if_splits)

lemma fetch_byte_cursor_ok:
  assumes "cursor_ok st" and "fetch_byte st = Inr (b, st')"
  shows "cursor_ok st'"
  using assms(1)
proof (cases rule: cursor_ok_cases)
  case null
  with assms(2) show ?thesis by (simp add: fetch_byte_def bytes_at_def)
next
  case (range q)
  with assms(2) show ?thesis
    by (auto simp: fetch_byte_def bytes_at_def area_bytes_def cursor_ok_def
        split: if_splits list.splits)
qed

lemma readByte_cursor_ok:
  assumes "cursor_ok st" and "readByte f st = Inr (b, st')"
  shows "cursor_ok st'"
proof (cases "inputBufferPtr st = inputBufferPtrEnd st")
  case False
  with assms show ?thesis by (simp add: readByte_def fetch_byte_cursor_ok)
next
  case True
  with assms(2) obtain st1 where r: "readBuffer f st = Inr st1"
    and c: "(if state st1 = END then Inr (0, st1) else fetch_byte st1) = Inr (b, st')"
    by (auto simp: readByte_def split: sum.splits)
  from readBuffer_cursor_ok[OF r] c show ?thesis
    by (auto simp: fetch_byte_cursor_ok split: if_splits)
qed

lemma readHeader_cursor_ok:
  assumes "cursor_ok st" and "readHeader st = Inr st'"
  shows "cursor_ok st'" and "0 \<le> remainingLength st'"
proof -
  have "cursor_ok st' \<and> 0 \<le> remainingLength st'"
    using assms(2)
  proof (cases rule: readHeader_Inr)
    case (eof b0 st1 d)
    from readByte_cursor_ok[OF assms(1) eof(1)] show ?thesis
      by (simp add: eof(4) cursor_ok_def)
  next
    case (header b0 st1 d b1 st3 b2 st4)
    from readByte_cursor_ok[OF assms(1) header(1)]
    have "cursor_ok (st1\<lparr>lastHeaderOffset := source_ByteCount (input st1) - d - 1,
                 bytesReturnedAtLastHeaderOffset := bytesReturned st1\<rparr>)"
      by (simp add: cursor_ok_def)
    from readByte_cursor_ok[OF readByte_cursor_ok[OF this header(4)] header(5)]
    show ?thesis by (simp add: header(6) cursor_ok_def)
  qed
  then show "cursor_ok st'" and "0 \<le> remainingLength st'" by simp_all
qed

lemma headerStage_cursor_ok:
  assumes "cursor_ok st" and "0 \<le> remainingLength st" and "headerStage st = Inr st'"
  shows "cursor_ok st'" and "0 \<le> remainingLength st'"
  using assms readHeader_cursor_ok[of st st']
  by (auto simp: headerStage_def split: if_splits)

lemma rangeStage_cursor_ok:
  assumes "cursor_ok st" and "rangeStage st = Inr st'"
  shows "cursor_ok st'" and "upcoming st' = upcoming st"
proof -
  have "cursor_ok st' \<and> upcoming st' = upcoming st"
  proof (cases "inputBufferPtr st = inputBufferPtrEnd st")
    case False
    with assms show ?thesis by (simp add: rangeStage_def)
  next
    case True
    with assms(2) have r: "readBuffer True st = Inr st'" by (simp add: rangeStage_def)
    from r obtain c cs where ch: "chunks (input st) = c # cs" and
      st': "st' = st\<lparr>calls := calls st @ [CallInputNext],
              input := (input st)\<lparr>chunks := cs, byteCount := byteCount (input st) + int (length c)\<rparr>,
              inputRange := c, inputBufferStart := Ptr InputRange 0,
              inputBufferPtr := Ptr InputRange 0,
              inputBufferPtrEnd := Ptr InputRange (int (length c))\<rparr>"
      by (rule readBuffer_True_Inr)
    from assms(1) True have "range_rest (inputBufferPtr st) (inputRange st) = []"
      by (cases rule: cursor_ok_cases) auto
    with ch show ?thesis
      using readBuffer_cursor_ok[OF r] by (simp add: upcoming_def st')
  qed
  then show "cursor_ok st'" and "upcoming st' = upcoming st" by simp_all
qed

lemma decryptBlock_upcoming:
  "decryptBlock data i out0 st = Inr (i2, out2, st4) \<Longrightarrow> upcoming st4 = upcoming st"
  by (cases rule: decryptBlock_Inr) (auto simp: upcoming_def)

lemma prepareOutputBuffer_upcoming: "upcoming (prepareOutputBuffer n st) = upcoming st"
  by (simp add: upcoming_def prepareOutputBuffer_def split: option.splits)

lemma decompressBlock_upcoming:
  assumes "decompressBlock data i out0 st = Inr (out3, st5)"
  shows "upcoming st5 = upcoming st"
  using assms
proof (cases rule: decompressBlock_Inr)
  case (decompressed d bs buf)
  have "upcoming st5 = upcoming (prepareOutputBuffer (fst (getDecompressedLength d bs)) st)"
    unfolding decompressed(8) by (simp add: upcoming_def)
  then show ?thesis by (simp add: prepareOutputBuffer_upcoming)
qed (auto simp: upcoming_def)

lemma same_but_output_refl: "same_but_output a a"
  by (simp add: same_but_output_def)

section \<open>A read in skip mode against the read with a destination\<close>

lemma decompressBlock_skip_mode:
  assumes d: "decompressBlock True i out0 st = Inr ((Some p, n), st5)"
    and good: "\<forall>d. decompressor st = Some d \<longrightarrow> exact_lengths_hold d"
  shows "k < n \<longrightarrow>
           decompressBlock False i (None, snd out0) (st\<lparr>pendingSkip := k\<rparr>) =
             Inr ((None, n), st5\<lparr>pendingSkip := k\<rparr>)"
    and "\<exists>st5e. decompressBlock False i (None, snd out0) (st\<lparr>pendingSkip := k\<rparr>) =
             Inr ((None, n), st5e\<lparr>pendingSkip := k\<rparr>) \<and>
           st5e\<lparr>outputBuffer := outputBuffer st5, outputBufferPtr := outputBufferPtr st5,
                calls := calls st5, outputBufferLength := outputBufferLength st5\<rparr> = st5"
proof -
  have "(k < n \<longrightarrow>
           decompressBlock False i (None, snd out0) (st\<lparr>pendingSkip := k\<rparr>) =
             Inr ((None, n), st5\<lparr>pendingSkip := k\<rparr>)) \<and>
        (\<exists>st5e. decompressBlock False i (None, snd out0) (st\<lparr>pendingSkip := k\<rparr>) =
             Inr ((None, n), st5e\<lparr>pendingSkip := k\<rparr>) \<and>
           st5e\<lparr>outputBuffer := outputBuffer st5, outputBufferPtr := outputBufferPtr st5,
                calls := calls st5, outputBufferLength := outputBufferLength st5\<rparr> = st5)"
    using d
  proof (cases rule: decompressBlock_Inr)
    case other
    then have "decompressBlock False i (None, snd out0) (st\<lparr>pendingSkip := k\<rparr>) =
             Inr ((None, n), st5\<lparr>pendingSkip := k\<rparr>)"
      by (auto simp: decompressBlock_other)
    then show ?thesis by (auto intro: exI[of _ st5])
  next
    case (elided d bs)
    then show ?thesis by simp
  next
    case (decompressed d bs buf)
    let ?len = "fst (getDecompressedLength d bs)"
    let ?n = "int (length (decompress d bs (int (length buf))))"
    from decompressed(7) have n: "n = ?n" by simp
    from prepareOutputBuffer_capacity[of ?len st] decompressed(6)
    have cap: "?len \<le> int (length buf)" by simp
    from good decompressed(2) have "exact_lengths_hold d" by simp
    with cap have ex: "snd (getDecompressedLength d bs) \<Longrightarrow> ?n = ?len"
      unfolding exact_lengths_hold_def by blast
    have pre: "state (st\<lparr>pendingSkip := k\<rparr>) = START"
      "decompressor (st\<lparr>pendingSkip := k\<rparr>) = Some d" "i \<noteq> Null"
      "bytes_at (st\<lparr>pendingSkip := k\<rparr>) i (remainingLength (st\<lparr>pendingSkip := k\<rparr>)) = Some bs"
      using decompressed(1-4) by simp_all
    note eq = decompressBlock_START[OF pre, of False "(None, snd out0)"]
    have ob: "outputBuffer (prepareOutputBuffer ?len (st\<lparr>pendingSkip := k\<rparr>)) = Some buf"
      using decompressed(6) by (simp add: prepareOutputBuffer_pendingSkip)
    have full: "decompressBlock False i (None, snd out0) (st\<lparr>pendingSkip := k\<rparr>) =
             Inr ((None, n), st5\<lparr>pendingSkip := k\<rparr>)"
      if "\<not> (snd (getDecompressedLength d bs) \<and> ?len \<le> k)"
    proof -
      from that have c: "\<not> (\<not> False \<and> snd (getDecompressedLength d bs) \<and>
         ?len \<le> pendingSkip (st\<lparr>pendingSkip := k\<rparr>))" by simp
      show ?thesis
        unfolding eq if_not_P[OF c] ob decompressed(8) n
        by (simp add: prepareOutputBuffer_pendingSkip)
    qed
    show ?thesis
    proof (cases "snd (getDecompressedLength d bs) \<and> ?len \<le> k")
      case False
      from full[OF False] show ?thesis by (auto intro: exI[of _ st5])
    next
      case True
      with ex n have nk: "n \<le> k" "?len = n" by simp_all
      let ?e = "st\<lparr>calls := calls st @ [CallGetDecompressedLength bs],
                   outputBufferPtr := Null, decryptionBuffer := None\<rparr>"
      from True have c: "\<not> False \<and> snd (getDecompressedLength d bs) \<and>
         ?len \<le> pendingSkip (st\<lparr>pendingSkip := k\<rparr>)" by simp
      have "decompressBlock False i (None, snd out0) (st\<lparr>pendingSkip := k\<rparr>) =
             Inr ((None, n), ?e\<lparr>pendingSkip := k\<rparr>)"
        unfolding eq if_P[OF c] using nk by simp
      moreover have "?e\<lparr>outputBuffer := outputBuffer st5, outputBufferPtr := outputBufferPtr st5,
                calls := calls st5, outputBufferLength := outputBufferLength st5\<rparr> = st5"
        unfolding decompressed(8)
        by (simp add: prepareOutputBuffer_def split: option.splits)
      ultimately show ?thesis using nk by (auto intro: exI[of _ ?e])
    qed
  qed
  then show "k < n \<longrightarrow>
           decompressBlock False i (None, snd out0) (st\<lparr>pendingSkip := k\<rparr>) =
             Inr ((None, n), st5\<lparr>pendingSkip := k\<rparr>)"
    and "\<exists>st5e. decompressBlock False i (None, snd out0) (st\<lparr>pendingSkip := k\<rparr>) =
             Inr ((None, n), st5e\<lparr>pendingSkip := k\<rparr>) \<and>
           st5e\<lparr>outputBuffer := outputBuffer st5, outputBufferPtr := outputBufferPtr st5,
                calls := calls st5, outputBufferLength := outputBufferLength st5\<rparr> = st5"
    by simp_all
qed

lemma headerStage_skip_entry:
  assumes "headerStage (st\<lparr>decryptionBuffer := None\<rparr>) = Inr st1"
  shows "headerStage (st\<lparr>pendingSkip := k, decryptionBuffer := None\<rparr>) =
           Inr (st1\<lparr>pendingSkip := k\<rparr>)"
proof -
  have eq: "st\<lparr>pendingSkip := k, decryptionBuffer := None\<rparr> =
        st\<lparr>decryptionBuffer := None, pendingSkip := k\<rparr>" by simp
  show ?thesis unfolding eq by (rule headerStage_skip[OF assms])
qed

lemma readBlock_originalI:
  assumes "headerStage (st\<lparr>decryptionBuffer := None\<rparr>) = Inr st1" and "state st1 \<noteq> END"
    and "rangeStage st1 = Inr st2" and "availableInput st2 = Some avail"
    and c: "decrypter st2 = None \<and> state st2 = ORIGINAL"
  shows "readBlock data st = readOriginal data (min avail (remainingLength st2)) st2"
  unfolding readBlock_def using assms(1-4) by (simp add: if_P[OF c])

lemma readBlock_encodedI:
  assumes "headerStage (st\<lparr>decryptionBuffer := None\<rparr>) = Inr st1" and "state st1 \<noteq> END"
    and "rangeStage st1 = Inr st2" and "availableInput st2 = Some avail"
    and c: "\<not> (decrypter st2 = None \<and> state st2 = ORIGINAL)"
  shows "readBlock data st = readEncoded data (min avail (remainingLength st2)) st2"
  unfolding readBlock_def using assms(1-4) by (simp add: if_not_P[OF c])

lemma readBlock_skip_mode:
  assumes rb: "readBlock True st = Inr (Some (Some p, n), st1)"
    and good: "\<forall>d. decompressor st = Some d \<longrightarrow> exact_lengths_hold d"
  shows "(k < n \<longrightarrow>
            readBlock False (st\<lparr>pendingSkip := k\<rparr>) =
              Inr (Some (None, n), st1\<lparr>pendingSkip := k\<rparr>)) \<and>
         (\<exists>st1e. readBlock False (st\<lparr>pendingSkip := k\<rparr>) =
              Inr (Some (None, n), st1e\<lparr>pendingSkip := k\<rparr>) \<and>
            same_but_output st1 st1e)"
  using rb
proof (cases rule: readBlock_Inr)
  case eof
  then show ?thesis by simp
next
  case (original sth st2 avail)
  note h = headerStage_skip_entry[OF original(1), of k]
  note g = rangeStage_skip[OF original(3), of k]
  note o = readOriginal_skip[OF original(7), of k]
  have "readBlock False (st\<lparr>pendingSkip := k\<rparr>) =
              Inr (Some (None, n), st1\<lparr>pendingSkip := k\<rparr>)"
    using readBlock_originalI[of "st\<lparr>pendingSkip := k\<rparr>" "sth\<lparr>pendingSkip := k\<rparr>"
        "st2\<lparr>pendingSkip := k\<rparr>" avail False] h g o original(2,4,5,6)
    by simp
  then show ?thesis by (auto intro: exI[of _ st1] simp: same_but_output_refl)
next
  case (encoded sth st2 avail)
  note h = headerStage_skip_entry[OF encoded(1), of k]
  note g = rangeStage_skip[OF encoded(3), of k]
  from encoded(6) show ?thesis
  proof (cases rule: readEncoded_Inr)
    case (1 i1 st3 i2 out2 st4 out3 st5)
    note e = ensureInput_skip[OF 1(1), of k]
    note c = decryptBlock_skip[OF 1(2), of k]
    from 1(4) have o3: "out3 = (Some p, n)" by simp
    note in_st = input_stages[OF encoded(1,3) 1(1)]
    from same_frameD(1)[OF in_st(1)] decryptBlock_keeps(2)[OF 1(2)]
    have "decompressor st4 = decompressor st" by simp
    with good have good4: "\<forall>d. decompressor st4 = Some d \<longrightarrow> exact_lengths_hold d" by simp
    note dm = decompressBlock_skip_mode[OF 1(3)[unfolded o3] good4, of k]
    have enc: "readBlock False (st\<lparr>pendingSkip := k\<rparr>) =
       (case decompressBlock False i2 (None, snd out2) (st4\<lparr>pendingSkip := k\<rparr>) of
          Inl e \<Rightarrow> Inl e
        | Inr (out3, st5) \<Rightarrow>
            finishRead out3 (st5\<lparr>remainingLength := 0, state := HEADER\<rparr>))"
    proof -
      have ne: "\<not> (decrypter (st2\<lparr>pendingSkip := k\<rparr>) = None \<and>
                   state (st2\<lparr>pendingSkip := k\<rparr>) = ORIGINAL)"
        using encoded(5) by simp
      have "readBlock False (st\<lparr>pendingSkip := k\<rparr>) =
            readEncoded False (min avail (remainingLength st2)) (st2\<lparr>pendingSkip := k\<rparr>)"
        using readBlock_encodedI[of "st\<lparr>pendingSkip := k\<rparr>" "sth\<lparr>pendingSkip := k\<rparr>"
          "st2\<lparr>pendingSkip := k\<rparr>" avail False, OF _ _ _ _ ne] h g encoded(2,4)
        by simp
      then show ?thesis
        unfolding readEncoded_def using e c by simp
    qed
    have a: "readBlock False (st\<lparr>pendingSkip := k\<rparr>) =
              Inr (Some (None, n), st1\<lparr>pendingSkip := k\<rparr>)" if "k < n"
      unfolding enc using dm(1) that by (simp add: finishRead_def 1(5) o3)
    from dm(2) obtain st5e where
      d5: "decompressBlock False i2 (None, snd out2) (st4\<lparr>pendingSkip := k\<rparr>) =
             Inr ((None, n), st5e\<lparr>pendingSkip := k\<rparr>)"
      and s5: "st5e\<lparr>outputBuffer := outputBuffer st5, outputBufferPtr := outputBufferPtr st5,
                calls := calls st5, outputBufferLength := outputBufferLength st5\<rparr> = st5"
      by blast
    let ?e = "st5e\<lparr>remainingLength := 0, state := HEADER, outputBufferLength := 0,
               bytesReturned := bytesReturned st5e + n, lastWindowSize := n\<rparr>"
    have b1: "readBlock False (st\<lparr>pendingSkip := k\<rparr>) = Inr (Some (None, n), ?e\<lparr>pendingSkip := k\<rparr>)"
      unfolding enc d5 by (simp add: finishRead_def)
    have "bytesReturned st5e = bytesReturned st5"
      using arg_cong[OF s5, of bytesReturned] by simp
    then have b2: "same_but_output st1 ?e"
      unfolding same_but_output_def 1(5) o3
      by (subst (2) s5[symmetric]) simp
    from a b1 b2 show ?thesis by (auto intro: exI[of _ ?e])
  qed
qed

lemma headerStage_cursor_ok':
  "cursor_ok st \<Longrightarrow> headerStage st = Inr st' \<Longrightarrow> cursor_ok st'"
  using readHeader_cursor_ok(1)[of st st']
  by (auto simp: headerStage_def split: if_splits)

lemma original_view_window:
  assumes rb: "readBlock True st = Inr (Some (Some p, n), st1)" and ok: "cursor_ok st"
    and n: "0 < n" and s: "state st1 = ORIGINAL"
  shows "\<exists>q. p = Ptr InputRange q \<and> 0 \<le> q \<and> inputBufferStart st1 = Ptr InputRange 0 \<and>
             inputBufferPtr st1 = Ptr InputRange (q + n) \<and>
             inputBufferPtrEnd st1 = Ptr InputRange (int (length (inputRange st1))) \<and>
             q + n \<le> int (length (inputRange st1))"
  using rb
proof (cases rule: readBlock_Inr)
  case eof
  then show ?thesis by simp
next
  case (original sth st2 avail)
  from ok have "cursor_ok (st\<lparr>decryptionBuffer := None\<rparr>)" by (simp add: cursor_ok_def)
  from rangeStage_cursor_ok(1)[OF headerStage_cursor_ok'[OF this original(1)] original(3)]
  have ok2: "cursor_ok st2" .
  from original(7) have n': "n = min avail (remainingLength st2)" and p: "p = inputBufferPtr st2"
    and st1: "st1 = st2\<lparr>outputBufferPtr := ptr_add (inputBufferPtr st2) n,
           inputBufferPtr := ptr_add (inputBufferPtr st2) n,
           remainingLength := remainingLength st2 - n, outputBufferLength := 0,
           bytesReturned := bytesReturned st2 + n, lastWindowSize := n\<rparr>"
    by (auto simp: readOriginal_def finishRead_def)
  from ok2 show ?thesis
  proof (cases rule: cursor_ok_cases)
    case null
    with original(4) n n' show ?thesis by (simp add: availableInput_def)
  next
    case (range q)
    with original(4) have "avail = int (length (inputRange st2)) - q"
      by (simp add: availableInput_def split: if_splits)
    with range n' p show ?thesis by (simp add: st1)
  qed
next
  case (encoded sth st2 avail)
  from encoded(6) s show ?thesis
    by (cases rule: readEncoded_Inr) simp
qed

lemma BackUp_after_view:
  assumes rb: "readBlock True st = Inr (Some (Some p, n), st1)" and ok: "cursor_ok st"
    and ps: "pendingSkip st = 0" and j: "0 < j" "j \<le> n"
  shows "BackUp j st1 =
     Inr (st1\<lparr>outputBufferPtr := ptr_add p (n - j), outputBufferLength := j,
              bytesReturned := bytesReturned st1 - j\<rparr>)"
proof -
  note v = readBlock_view[OF rb]
  from readBlock_keeps(1)[OF rb] ps have p0: "pendingSkip st1 = 0" by simp
  have z: "st1\<lparr>pendingSkip := 0\<rparr> = st1" using p0 by simp
  from v(1,3) have nn: "outputBufferPtr st1 \<noteq> Null" by (cases p) simp_all
  have "BackUp j st1 =
     Inr (st1\<lparr>outputBufferPtr := ptr_add (outputBufferPtr st1) (- j),
              outputBufferLength := outputBufferLength st1 + j,
              bytesReturned := bytesReturned st1 - j\<rparr>)"
  proof (cases "state st1 = ORIGINAL")
    case False
    then show ?thesis
      unfolding BackUp_def Let_def using j p0 nn by (simp add: z)
  next
    case True
    from original_view_window[OF rb ok _ True] j obtain q where
      "p = Ptr InputRange q" "0 \<le> q" "inputBufferStart st1 = Ptr InputRange 0"
      "inputBufferPtr st1 = Ptr InputRange (q + n)"
      "inputBufferPtrEnd st1 = Ptr InputRange (int (length (inputRange st1)))"
      "q + n \<le> int (length (inputRange st1))"
      by auto
    with v(1) show ?thesis
      unfolding BackUp_def Let_def using j p0 by (simp add: z)
  qed
  then show ?thesis using v by (simp add: ptr_add_add)
qed

lemma bytes_at_suffix:
  assumes "bytes_at st p n = Some bs" and "0 \<le> k" and "k \<le> n"
  shows "bytes_at st (ptr_add p k) (n - k) = Some (drop (nat k) bs)"
proof (cases p)
  case Null
  with assms show ?thesis by (auto simp: bytes_at_def split: if_splits)
next
  case (Ptr a off)
  with assms obtain xs where xs: "area_bytes st a = Some xs" 
    and b: "0 \<le> off" "0 \<le> n" "off + n \<le> int (length xs)"
    and bs: "bs = take (nat n) (drop (nat off) xs)"
    by (auto simp: bytes_at_def split: option.splits if_splits)
  have "drop (nat k) (take (nat n) (drop (nat off) xs)) =
        take (nat n - nat k) (drop (nat k + nat off) xs)"
    by (simp add: drop_take)
  moreover have "nat (off + k) = nat k + nat off" "nat (n - k) = nat n - nat k"
    using assms(2,3) b by (simp_all add: nat_add_distrib nat_diff_distrib)
  ultimately show ?thesis
    using Ptr xs b assms(2,3) by (simp add: bytes_at_def bs)
qed

lemma skipAllPending_step:
  assumes "0 < pendingSkip st" and "readOrSkip False st = Inr (Some (d, len), st1)"
  shows "skipAllPending st =
     (if len > pendingSkip st1 then
        (case BackUp (len - pendingSkip st1) (st1\<lparr>pendingSkip := 0\<rparr>) of
           Inl e \<Rightarrow> Some (Inl e)
         | Inr st2 \<Rightarrow> skipAllPending st2)
      else skipAllPending (st1\<lparr>pendingSkip := pendingSkip st1 - len\<rparr>))"
  using assms by (subst skipAllPending.simps) simp

section \<open>The example streams\<close>

lemmas stream_defs =
  PagedInputStream_def chunked_def doubling_def increment_def rawBlock_def rawBlockRead_def
  rawBlockRewound_def compressedBlock_def compressedHeader_def compressedSkipped_def
  compressedRead_def encryptedBlock_def encryptedHeader_def encryptedRead_def

lemmas read_defs =
  readOrSkip_def readBlock_def headerStage_def rangeStage_def readOriginal_def
  readEncoded_def finishRead_def readHeader_def readByte_def readBuffer_def fetch_byte_def
  bytes_at_def area_bytes_def source_Next_def source_ByteCount_def availableInput_def
  ensureInput_def ensureInput_loop.simps decryptBlock_def decompressBlock_def
  prepareOutputBuffer_def copy_to_def reserve_def Let_def

lemma doubling_exact: "exact_lengths_hold doubling"
proof -
  have "length (concat (map (\<lambda>b. [b, b]) bs)) = 2 * length bs" for bs :: "byte list"
    by (induction bs) simp_all
  then show ?thesis
    by (simp add: exact_lengths_hold_def doubling_def)
qed

lemma headerStage_compressedBlock:
  "headerStage (compressedBlock\<lparr>pendingSkip := k, decryptionBuffer := None\<rparr>) =
     Inr (compressedHeader\<lparr>pendingSkip := k\<rparr>)"
  by (simp add: stream_defs read_defs)

lemma readOrSkip_compressedBlock:
  "readOrSkip True compressedBlock =
     Inr (Some (Some (Ptr OutputBufferData 0), 6), compressedRead)"
  by (simp add: stream_defs read_defs)

lemma skip_mode_compressedBlock:
  "readOrSkip False (compressedBlock\<lparr>pendingSkip := 6\<rparr>) =
     Inr (Some (None, 6), compressedSkipped\<lparr>pendingSkip := 6\<rparr>)"
  by (simp add: stream_defs read_defs)

lemma headerStage_encryptedBlock:
  "headerStage (encryptedBlock\<lparr>decryptionBuffer := None\<rparr>) = Inr encryptedHeader"
  by (simp add: stream_defs read_defs)

lemma readOrSkip_encryptedBlock:
  "readOrSkip True encryptedBlock = Inr (Some (Some (Ptr DecryptionData 0), 3), encryptedRead)"
  by (simp add: stream_defs read_defs)




lemma Next_compressedBlock:
  "Next compressedBlock = Some (Inr (Some (Some (Ptr OutputBufferData 0), 6), compressedRead))"
proof -
  have "pendingSkip compressedBlock = 0" by (simp add: stream_defs)
  then show ?thesis
    by (simp add: Next_def skipAllPending_none_pending readOrSkip_compressedBlock)
qed

section \<open>Streams that read alike\<close>

lemma bind_alike:
  assumes "rel_sum (=) R x y"
    and "\<And>u v. R u v \<Longrightarrow> rel_sum (=) S (g u) (h v)"
  shows "rel_sum (=) S (case x of Inl e \<Rightarrow> Inl e | Inr u \<Rightarrow> g u)
                        (case y of Inl e \<Rightarrow> Inl e | Inr v \<Rightarrow> h v)"
  using assms by (cases x; cases y) auto

lemma read_at_off_output:
  "off_output p \<Longrightarrow> read_at (areas r b d ob) p n = read_at (areas r b d ob') p n"
  by (cases p rule: off_output.cases) simp_all

lemma bytes_at_alike:
  assumes "alike a b" and "off_output p"
  shows "bytes_at b p n = bytes_at a p n"
  using assms(1) read_at_off_output[OF assms(2)]
  by (simp add: alike_def bytes_at_def area_bytes_def)

lemma off_output_ptr_add [simp]: "off_output (ptr_add p n) = off_output p"
  by (cases p rule: off_output.cases) simp_all

lemma readBuffer_alike:
  assumes "alike a b"
  shows "rel_sum (=) alike (readBuffer f a) (readBuffer f b)"
  using assms by (auto simp: readBuffer_def alike_def split: option.splits)

lemma fetch_byte_alike:
  assumes "alike a b"
  shows "rel_sum (=) (rel_prod (=) alike) (fetch_byte a) (fetch_byte b)"
proof -
  from assms have p: "inputBufferPtr b = inputBufferPtr a" "off_output (inputBufferPtr a)"
    by (simp_all add: alike_def)
  from bytes_at_alike[OF assms p(2)] p(1)
  have e: "bytes_at b (inputBufferPtr b) 1 = bytes_at a (inputBufferPtr a) 1" by simp
  show ?thesis
    unfolding fetch_byte_def e using assms
    by (auto simp: alike_def split: option.splits list.splits)
qed

lemma readByte_alike:
  assumes "alike a b"
  shows "rel_sum (=) (rel_prod (=) alike) (readByte f a) (readByte f b)"
proof -
  from assms have p: "inputBufferPtr b = inputBufferPtr a"
    "inputBufferPtrEnd b = inputBufferPtrEnd a"
    by (simp_all add: alike_def)
  have s: "state v = state u" if "alike u v" for u v using that by (simp add: alike_def)
  show ?thesis
    unfolding readByte_def p
    by (auto intro!: bind_alike[OF readBuffer_alike[OF assms]] fetch_byte_alike assms
        simp: s)
qed

lemma alike_update:
  assumes "alike a b"
  shows "alike (a\<lparr>lastHeaderOffset := x\<rparr>) (b\<lparr>lastHeaderOffset := x\<rparr>)"
    and "alike (a\<lparr>bytesReturnedAtLastHeaderOffset := y\<rparr>)
               (b\<lparr>bytesReturnedAtLastHeaderOffset := y\<rparr>)"
    and "alike (a\<lparr>state := s\<rparr>) (b\<lparr>state := s\<rparr>)"
    and "alike (a\<lparr>remainingLength := r\<rparr>) (b\<lparr>remainingLength := r\<rparr>)"
    and "alike (a\<lparr>decryptionBuffer := d\<rparr>) (b\<lparr>decryptionBuffer := d\<rparr>)"
    and "alike (a\<lparr>pendingSkip := k\<rparr>) (b\<lparr>pendingSkip := k\<rparr>)"
    and "alike (a\<lparr>inputBuffer := i\<rparr>) (b\<lparr>inputBuffer := i\<rparr>)"
    and "alike (a\<lparr>bytesReturned := n\<rparr>) (b\<lparr>bytesReturned := n\<rparr>)"
    and "alike (a\<lparr>lastWindowSize := w\<rparr>) (b\<lparr>lastWindowSize := w\<rparr>)"
    and "alike (a\<lparr>outputBufferLength := l\<rparr>) (b\<lparr>outputBufferLength := l\<rparr>)"
    and "alike (a\<lparr>inputBufferPtr := ptr_add (inputBufferPtr a) j\<rparr>)
               (b\<lparr>inputBufferPtr := ptr_add (inputBufferPtr a) j\<rparr>)"
    and "alike (a\<lparr>outputBufferPtr := p\<rparr>) (b\<lparr>outputBufferPtr := q\<rparr>)"
    and "alike (a\<lparr>outputBuffer := ob\<rparr>) (b\<lparr>outputBuffer := ob'\<rparr>)"
    and "alike (a\<lparr>calls := cs\<rparr>) (b\<lparr>calls := cs'\<rparr>)"
  using assms by (simp_all add: alike_def)

lemma alikeD:
  assumes "alike a b"
  shows "input b = input a" and "decompressor b = decompressor a"
    and "decrypter b = decrypter a" and "inputRange b = inputRange a"
    and "inputBuffer b = inputBuffer a" and "decryptionBuffer b = decryptionBuffer a"
    and "state b = state a" and "outputBufferLength b = outputBufferLength a"
    and "remainingLength b = remainingLength a"
    and "inputBufferStart b = inputBufferStart a" and "inputBufferPtr b = inputBufferPtr a"
    and "inputBufferPtrEnd b = inputBufferPtrEnd a" and "bytesReturned b = bytesReturned a"
    and "lastWindowSize b = lastWindowSize a" and "lastHeaderOffset b = lastHeaderOffset a"
    and "bytesReturnedAtLastHeaderOffset b = bytesReturnedAtLastHeaderOffset a"
    and "pendingSkip b = pendingSkip a" and "off_output (inputBufferPtr a)"
  using assms by (simp_all add: alike_def)

lemma bind_alike2:
  assumes "rel_sum (=) (rel_prod (=) R) x y"
    and "\<And>w u v. R u v \<Longrightarrow> rel_sum (=) S (g w u) (h w v)"
  shows "rel_sum (=) S (case x of Inl e \<Rightarrow> Inl e | Inr (w, u) \<Rightarrow> g w u)
                        (case y of Inl e \<Rightarrow> Inl e | Inr (w, v) \<Rightarrow> h w v)"
  using assms by (cases x; cases y) auto

lemma readHeader_alike:
  assumes "alike a b"
  shows "rel_sum (=) alike (readHeader a) (readHeader b)"
  unfolding readHeader_def
proof (rule bind_alike2[OF readByte_alike[OF assms]])
  fix b0 :: "32 word" and a1 b1
  assume r: "alike a1 b1"
  note d = alikeD[OF r]
  show "rel_sum (=) alike
     (case ptr_diff (inputBufferPtrEnd a1) (inputBufferPtr a1) of
        None \<Rightarrow> Inl UndefinedBehaviour
      | Some rest \<Rightarrow>
          let st2 = a1\<lparr>lastHeaderOffset := source_ByteCount (input a1) - rest - 1,
                         bytesReturnedAtLastHeaderOffset := bytesReturned a1\<rparr>
          in if state st2 \<noteq> END then
               (case readByte True st2 of
                  Inl e \<Rightarrow> Inl e
                | Inr (b1, st3) \<Rightarrow>
                    (case readByte True st3 of
                       Inl e \<Rightarrow> Inl e
                     | Inr (b2, st4) \<Rightarrow>
                         let header = b0 OR push_bit 8 b1 OR push_bit 16 b2
                         in Inr (st4\<lparr>state := (if header AND 1 \<noteq> 0 then ORIGINAL
                                                  else START),
                                     remainingLength := uint (drop_bit 1 header)\<rparr>)))
             else Inr (st2\<lparr>remainingLength := 0\<rparr>))
     (case ptr_diff (inputBufferPtrEnd b1) (inputBufferPtr b1) of
        None \<Rightarrow> Inl UndefinedBehaviour
      | Some rest \<Rightarrow>
          let st2 = b1\<lparr>lastHeaderOffset := source_ByteCount (input b1) - rest - 1,
                         bytesReturnedAtLastHeaderOffset := bytesReturned b1\<rparr>
          in if state st2 \<noteq> END then
               (case readByte True st2 of
                  Inl e \<Rightarrow> Inl e
                | Inr (b1, st3) \<Rightarrow>
                    (case readByte True st3 of
                       Inl e \<Rightarrow> Inl e
                     | Inr (b2, st4) \<Rightarrow>
                         let header = b0 OR push_bit 8 b1 OR push_bit 16 b2
                         in Inr (st4\<lparr>state := (if header AND 1 \<noteq> 0 then ORIGINAL
                                                  else START),
                                     remainingLength := uint (drop_bit 1 header)\<rparr>)))
             else Inr (st2\<lparr>remainingLength := 0\<rparr>))"
    unfolding Let_def
    by (auto simp: d split: option.split
        intro!: bind_alike2 readByte_alike alike_update[OF r] alike_update)
qed

lemma headerStage_alike:
  assumes "alike a b"
  shows "rel_sum (=) alike (headerStage a) (headerStage b)"
  using readHeader_alike[OF assms] assms
  by (simp add: headerStage_def alikeD[OF assms])

lemma rangeStage_alike:
  assumes "alike a b"
  shows "rel_sum (=) alike (rangeStage a) (rangeStage b)"
  using readBuffer_alike[OF assms] assms
  by (simp add: rangeStage_def alikeD[OF assms])

lemma availableInput_alike: "alike a b \<Longrightarrow> availableInput b = availableInput a"
  by (simp add: availableInput_def alike_def)

lemma ensureInput_loop_alike:
  "alike a b \<Longrightarrow> rel_sum (=) alike (ensureInput_loop pos a) (ensureInput_loop pos b)"
proof (induction pos a arbitrary: b rule: ensureInput_loop.induct)
  case (1 pos st)
  note d = alikeD[OF "1.prems"]
  show ?case
  proof (cases "pos < remainingLength st")
    case False
    with "1.prems" show ?thesis
      by (simp add: ensureInput_loop.simps[of pos st] ensureInput_loop.simps[of pos b] d)
  next
    case True
    note rb = readBuffer_alike[OF "1.prems", of True]
    show ?thesis
    proof (cases "readBuffer True st")
      case (Inl e)
      with rb have "readBuffer True b = Inl e" by (cases "readBuffer True b") simp_all
      with Inl True show ?thesis
        by (simp add: ensureInput_loop.simps[of pos st] ensureInput_loop.simps[of pos b] d)
    next
      case (Inr st1)
      with rb obtain b1 where b1: "readBuffer True b = Inr b1" and r1: "alike st1 b1"
        by (cases "readBuffer True b") simp_all
      note d1 = alikeD[OF r1]
      note av = availableInput_alike[OF r1]
      show ?thesis
      proof (cases "availableInput st1")
        case None
        with Inr b1 True av show ?thesis
          by (simp add: ensureInput_loop.simps[of pos st] ensureInput_loop.simps[of pos b] d)
      next
        case (Some avail)
        let ?m = "min avail (remainingLength st1 - pos)"
        have bt: "bytes_at b1 (inputBufferPtr b1) ?m = bytes_at st1 (inputBufferPtr st1) ?m"
          using bytes_at_alike[OF r1 d1(18)] d1(11) by simp
        show ?thesis
        proof (cases "bytes_at st1 (inputBufferPtr st1) ?m")
          case None
          with Inr b1 True av Some bt show ?thesis
            by (simp add: ensureInput_loop.simps[of pos st] ensureInput_loop.simps[of pos b]
                d d1)
        next
          case (Some bs)
          let ?a2 = "st1\<lparr>inputBuffer := copy_to (inputBuffer st1) pos bs,
                         inputBufferPtr := ptr_add (inputBufferPtr st1) ?m\<rparr>"
          let ?b2 = "b1\<lparr>inputBuffer := copy_to (inputBuffer st1) pos bs,
                         inputBufferPtr := ptr_add (inputBufferPtr st1) ?m\<rparr>"
          have r2: "alike ?a2 ?b2" using r1 by (simp add: alike_def)
          note ih = "1.IH"[OF True Inr \<open>availableInput st1 = Some avail\<close> Some r2]
          have ea: "ensureInput_loop pos st = ensureInput_loop (pos + ?m) ?a2"
            using True Inr \<open>availableInput st1 = Some avail\<close> Some
            by (simp add: ensureInput_loop.simps[of pos st])
          have eb: "ensureInput_loop pos b = ensureInput_loop (pos + ?m) ?b2"
            using True b1 \<open>availableInput st1 = Some avail\<close> Some av bt
            by (simp add: ensureInput_loop.simps[of pos b] d d1)
          from ih show ?thesis unfolding ea eb .
        qed
      qed
    qed
  qed
qed

lemma ensureInput_alike:
  assumes "alike a b"
  shows "rel_sum (=) (rel_prod (\<lambda>p q. q = p \<and> off_output p) alike)
           (ensureInput n a) (ensureInput n b)"
proof -
  note d = alikeD[OF assms]
  show ?thesis
  proof (cases "remainingLength a \<le> n")
    case True
    then show ?thesis
      using alike_update(11)[OF assms, of n] by (simp add: ensureInput_def d)
  next
    case False
    let ?a1 = "if int (length (inputBuffer a)) < remainingLength a
               then a\<lparr>inputBuffer := reserve (inputBuffer a) (remainingLength a)\<rparr> else a"
    let ?b1 = "if int (length (inputBuffer a)) < remainingLength a
               then b\<lparr>inputBuffer := reserve (inputBuffer a) (remainingLength a)\<rparr> else b"
    have r1: "alike ?a1 ?b1" using assms by (simp add: alike_update)
    have p1: "inputBufferPtr ?a1 = inputBufferPtr a" "inputBufferPtr ?b1 = inputBufferPtr a"
      "inputBuffer ?b1 = inputBuffer ?a1"
      by (simp_all add: d)
    have bt: "bytes_at ?b1 (inputBufferPtr a) n = bytes_at ?a1 (inputBufferPtr a) n"
      by (rule bytes_at_alike[OF r1 d(18)])
    have ea: "ensureInput n a =
      (case bytes_at ?a1 (inputBufferPtr a) n of
         None \<Rightarrow> Inl UndefinedBehaviour
       | Some bs \<Rightarrow>
           (case ensureInput_loop n
                        (?a1\<lparr>inputBuffer := copy_to (inputBuffer ?a1) 0 bs,
                             inputBufferPtr := ptr_add (inputBufferPtr a) n\<rparr>) of
                   Inl e \<Rightarrow> Inl e
                 | Inr st2 \<Rightarrow> Inr (Ptr InputBufferData 0, st2)))"
      using False unfolding ensureInput_def Let_def p1 by simp
    have eb: "ensureInput n b =
      (case bytes_at ?b1 (inputBufferPtr a) n of
         None \<Rightarrow> Inl UndefinedBehaviour
       | Some bs \<Rightarrow>
           (case ensureInput_loop n
                        (?b1\<lparr>inputBuffer := copy_to (inputBuffer ?a1) 0 bs,
                             inputBufferPtr := ptr_add (inputBufferPtr a) n\<rparr>) of
                   Inl e \<Rightarrow> Inl e
                 | Inr st2 \<Rightarrow> Inr (Ptr InputBufferData 0, st2)))"
      using False unfolding ensureInput_def Let_def d p1 by simp
    show ?thesis
    proof (cases "bytes_at ?a1 (inputBufferPtr a) n")
      case None
      then show ?thesis unfolding ea eb bt by simp
    next
      case (Some bs)
      have r2: "alike (?a1\<lparr>inputBuffer := copy_to (inputBuffer ?a1) 0 bs,
                             inputBufferPtr := ptr_add (inputBufferPtr a) n\<rparr>)
                      (?b1\<lparr>inputBuffer := copy_to (inputBuffer ?a1) 0 bs,
                             inputBufferPtr := ptr_add (inputBufferPtr a) n\<rparr>)"
        using r1 d(18) by (simp add: alike_def)
      show ?thesis
        unfolding ea eb bt Some option.case
        by (rule bind_alike[OF ensureInput_loop_alike[OF r2]]) simp
    qed
  qed
qed

lemma decryptBlock_alike:
  assumes "alike a b" and "off_output i"
  shows "rel_sum (=)
           (rel_prod (\<lambda>p q. q = p \<and> off_output p)
              (rel_prod (=) (\<lambda>u v. alike u v \<and>
                 (decrypter a \<noteq> None \<longrightarrow> outputBufferPtr v = outputBufferPtr u))))
           (decryptBlock data i out0 a) (decryptBlock data i out0 b)"
proof -
  note d = alikeD[OF assms(1)]
  note bt = bytes_at_alike[OF assms, of "remainingLength a"]
  show ?thesis
    unfolding decryptBlock_def d bt using assms
    by (auto simp: Let_def alike_def split: option.splits)
qed

lemma bytes_at_Null: "bytes_at b Null j = bytes_at a Null j"
  by (simp add: bytes_at_def)

lemma bytes_at_produced:
  assumes "outputBuffer st = Some (copy_to buf 0 produced)" and "0 \<le> j"
    and "j \<le> int (length produced)"
  shows "bytes_at st (Ptr OutputBufferData (int (length produced) - j)) j =
           Some (drop (length produced - nat j) produced)"
proof -
  have "nat (int (length produced) - j) = length produced - nat j"
    using assms(2,3) by simp
  then show ?thesis
    using assms by (simp add: bytes_at_def area_bytes_def copy_to_def)
qed

lemma decompressBlock_alike:
  assumes r: "alike a b" and i: "off_output i"
  shows "rel_sum (=)
           (\<lambda>x y. fst y = fst x \<and> alike (snd x) (snd y) \<and>
                  (state a = START \<longrightarrow> window_alike (snd (fst x)) (snd x) (snd y)))
           (decompressBlock data i out0 a) (decompressBlock data i out0 b)"
proof (cases "state a = START")
  case False
  with r show ?thesis by (simp add: decompressBlock_def alikeD[OF r])
next
  case True
  note d = alikeD[OF r]
  note bt = bytes_at_alike[OF r i, of "remainingLength a"]
  show ?thesis
  proof (cases "decompressor a")
    case None
    with True show ?thesis by (simp add: decompressBlock_def d)
  next
    case (Some dc)
    with r have cf: "capacity_free dc" by (simp add: alike_def)
    show ?thesis
    proof (cases "i = Null \<or> bytes_at a i (remainingLength a) = None")
      case True
      with \<open>state a = START\<close> Some show ?thesis
        by (auto simp: decompressBlock_def d bt)
    next
      case False
      then obtain bs where n: "i \<noteq> Null" and bs: "bytes_at a i (remainingLength a) = Some bs"
        by auto
      let ?len = "fst (getDecompressedLength dc bs)"
      note sa = decompressBlock_START[OF \<open>state a = START\<close> Some n bs, of data out0]
      have hb: "state b = START" "decompressor b = Some dc"
        "bytes_at b i (remainingLength b) = Some bs"
        using \<open>state a = START\<close> Some bs by (simp_all add: d bt)
      note sb = decompressBlock_START[OF hb(1,2) n hb(3), of data out0, unfolded d(17)]
      show ?thesis
      proof (cases "\<not> data \<and> snd (getDecompressedLength dc bs) \<and> ?len \<le> pendingSkip a")
        case True
        let ?a1 = "a\<lparr>calls := calls a @ [CallGetDecompressedLength bs],
                      outputBufferPtr := Null, decryptionBuffer := None\<rparr>"
        let ?b1 = "b\<lparr>calls := calls b @ [CallGetDecompressedLength bs],
                      outputBufferPtr := Null, decryptionBuffer := None\<rparr>"
        have ea: "decompressBlock data i out0 a = Inr ((fst out0, ?len), ?a1)"
          unfolding sa by (rule if_P[OF True])
        have eb: "decompressBlock data i out0 b = Inr ((fst out0, ?len), ?b1)"
          unfolding sb by (rule if_P[OF True])
        have "alike ?a1 ?b1" using r by (simp add: alike_def)
        then show ?thesis
          unfolding ea eb by (simp add: window_alike_def bytes_at_def)
      next
        case False
        let ?a2 = "prepareOutputBuffer ?len a"
        let ?b2 = "prepareOutputBuffer ?len b"
        from prepareOutputBuffer_capacity[of ?len a] obtain bufa where
          ba: "outputBuffer ?a2 = Some bufa" "?len \<le> int (length bufa)" by blast
        from prepareOutputBuffer_capacity[of ?len b] obtain bufb where
          bb: "outputBuffer ?b2 = Some bufb" "?len \<le> int (length bufb)" by blast
        let ?out = "decompress dc bs (int (length bufa))"
        from cf ba(2) bb(2)
        have same: "decompress dc bs (int (length bufb)) = ?out"
          unfolding capacity_free_def by blast
        let ?n = "int (length ?out)"
        let ?a3 = "?a2\<lparr>calls := calls a @ [CallGetDecompressedLength bs,
                                             CallDecompress bs (int (length bufa))],
                        outputBuffer := Some (copy_to bufa 0 ?out),
                        outputBufferLength := ?n,
                        outputBufferPtr := Ptr OutputBufferData ?n,
                        decryptionBuffer := None\<rparr>"
        let ?b3 = "?b2\<lparr>calls := calls b @ [CallGetDecompressedLength bs,
                                             CallDecompress bs (int (length bufb))],
                        outputBuffer := Some (copy_to bufb 0 ?out),
                        outputBufferLength := ?n,
                        outputBufferPtr := Ptr OutputBufferData ?n,
                        decryptionBuffer := None\<rparr>"
        have ea: "decompressBlock data i out0 a =
            Inr ((if data then Some (Ptr OutputBufferData 0) else fst out0, ?n), ?a3)"
          unfolding sa if_not_P[OF False] ba(1) by simp
        have eb: "decompressBlock data i out0 b =
            Inr ((if data then Some (Ptr OutputBufferData 0) else fst out0, ?n), ?b3)"
          unfolding sb if_not_P[OF False] bb(1) by (simp add: same)
        have r2: "alike ?a2 ?b2"
          using r by (simp add: alike_def prepareOutputBuffer_def split: option.splits)
        then have r3: "alike ?a3 ?b3" by (simp add: alike_def)
        have w: "window_alike ?n ?a3 ?b3"
          unfolding window_alike_def
        proof (intro conjI allI impI)
          show "outputBufferPtr ?b3 = outputBufferPtr ?a3" by simp
        next
          fix j assume j: "0 \<le> j \<and> j \<le> ?n"
          have "bytes_at ?a3 (Ptr OutputBufferData (?n - j)) j =
                  Some (drop (length ?out - nat j) ?out)"
            by (rule bytes_at_produced) (use j in simp_all)
          moreover have "bytes_at ?b3 (Ptr OutputBufferData (?n - j)) j =
                  Some (drop (length ?out - nat j) ?out)"
            by (rule bytes_at_produced) (use j in simp_all)
          ultimately show "bytes_at ?b3 (ptr_add (outputBufferPtr ?a3) (- j)) j =
                bytes_at ?a3 (ptr_add (outputBufferPtr ?a3) (- j)) j"
            by simp
        qed
        show ?thesis unfolding ea eb using r3 w by simp
      qed
    qed
  qed
qed

lemma rel_sum_InlD: "rel_sum (=) R x y \<Longrightarrow> x = Inl e \<Longrightarrow> y = Inl e"
  by (cases y) auto

lemma rel_sum_InrD:
  assumes "rel_sum (=) R x y" and "x = Inr u"
  shows "\<exists>v. y = Inr v \<and> R u v"
  using assms by (cases y) auto

lemma window_alike_off:
  assumes "alike u v" and "outputBufferPtr v = outputBufferPtr u"
    and "off_output (outputBufferPtr u)"
  shows "window_alike n u v"
  unfolding window_alike_def using assms(2,3) bytes_at_alike[OF assms(1)]
  by simp

lemma window_alike_finish:
  assumes "window_alike n u v"
  shows "window_alike n
           (u\<lparr>remainingLength := r, state := s, outputBufferLength := l,
              bytesReturned := x, lastWindowSize := y\<rparr>)
           (v\<lparr>remainingLength := r, state := s, outputBufferLength := l,
              bytesReturned := x, lastWindowSize := y\<rparr>)"
  using assms by (simp add: window_alike_def bytes_at_def area_bytes_def)

lemma readOriginal_alike:
  assumes r: "alike a b"
  shows "rel_sum (=) read_alike (readOriginal data n a) (readOriginal data n b)"
proof -
  note d = alikeD[OF r]
  let ?a1 = "a\<lparr>outputBufferPtr := ptr_add (inputBufferPtr a) n,
                inputBufferPtr := ptr_add (inputBufferPtr a) n,
                remainingLength := remainingLength a - n,
                outputBufferLength := 0, bytesReturned := bytesReturned a + n,
                lastWindowSize := n\<rparr>"
  let ?b1 = "b\<lparr>outputBufferPtr := ptr_add (inputBufferPtr a) n,
                inputBufferPtr := ptr_add (inputBufferPtr a) n,
                remainingLength := remainingLength a - n,
                outputBufferLength := 0, bytesReturned := bytesReturned a + n,
                lastWindowSize := n\<rparr>"
  have ea: "readOriginal data n a =
      Inr (Some (if data then Some (inputBufferPtr a) else None, n), ?a1)"
    by (simp add: readOriginal_def finishRead_def)
  have eb: "readOriginal data n b =
      Inr (Some (if data then Some (inputBufferPtr a) else None, n), ?b1)"
    by (simp add: readOriginal_def finishRead_def d)
  have r1: "alike ?a1 ?b1" using r by (simp add: alike_def)
  have "window_alike n ?a1 ?b1"
    by (rule window_alike_off[OF r1]) (simp_all add: d)
  with r1 show ?thesis unfolding ea eb by (simp add: read_alike_def)
qed

lemma readEncoded_alike:
  assumes r: "alike a b" and c: "decrypter a \<noteq> None \<or> state a = START"
  shows "rel_sum (=) read_alike (readEncoded data n a) (readEncoded data n b)"
proof (cases "ensureInput n a")
  case (Inl e)
  from rel_sum_InlD[OF ensureInput_alike[OF r] Inl] Inl show ?thesis
    by (simp add: readEncoded_def)
next
  case (Inr x)
  obtain i1 a3 where x: "x = (i1, a3)" by (cases x)
  from rel_sum_InrD[OF ensureInput_alike[OF r] Inr] x
  obtain b3 where e3: "ensureInput n b = Inr (i1, b3)" and r3: "alike a3 b3"
    and o1: "off_output i1"
    by auto
  from Inr x have ea3: "ensureInput n a = Inr (i1, a3)" by simp
  note k3 = ensureInput_same_frame[OF ea3]
  note dy = decryptBlock_alike[OF r3 o1, of data "(None, 0)"]
  show ?thesis
  proof (cases "decryptBlock data i1 (None, 0) a3")
    case (Inl e)
    from rel_sum_InlD[OF dy Inl] Inl ea3 e3 show ?thesis
      by (simp add: readEncoded_def)
  next
    case (Inr y)
    obtain i2 out2 a4 where y: "y = (i2, out2, a4)" by (cases y)
    from rel_sum_InrD[OF dy Inr] y
    obtain b4 where e4: "decryptBlock data i1 (None, 0) b3 = Inr (i2, out2, b4)"
      and r4: "alike a4 b4" and o2: "off_output i2"
      and p4: "decrypter a3 \<noteq> None \<longrightarrow> outputBufferPtr b4 = outputBufferPtr a4"
      by auto
    from Inr y have ea4: "decryptBlock data i1 (None, 0) a3 = Inr (i2, out2, a4)" by simp
    note k4 = decryptBlock_keeps[OF ea4]
    note dc = decompressBlock_alike[OF r4 o2, of data out2]
    show ?thesis
    proof (cases "decompressBlock data i2 out2 a4")
      case (Inl e)
      from rel_sum_InlD[OF dc Inl] Inl ea3 e3 ea4 e4 show ?thesis
        by (simp add: readEncoded_def)
    next
      case (Inr z)
      obtain out3 a5 where z: "z = (out3, a5)" by (cases z)
      from rel_sum_InrD[OF dc Inr] z
      obtain b5 where e5: "decompressBlock data i2 out2 b4 = Inr (out3, b5)"
        and r5: "alike a5 b5"
        and w5: "state a4 = START \<longrightarrow> window_alike (snd out3) a5 b5"
        by auto
      from Inr z have ea5: "decompressBlock data i2 out2 a4 = Inr (out3, a5)" by simp
      let ?fa = "a5\<lparr>remainingLength := 0, state := HEADER, outputBufferLength := 0,
                  bytesReturned := bytesReturned a5 + snd out3, lastWindowSize := snd out3\<rparr>"
      let ?fb = "b5\<lparr>remainingLength := 0, state := HEADER, outputBufferLength := 0,
                  bytesReturned := bytesReturned a5 + snd out3, lastWindowSize := snd out3\<rparr>"
      have fa: "readEncoded data n a = Inr (Some out3, ?fa)"
        using ea3 ea4 ea5 by (simp add: readEncoded_def finishRead_def)
      have fb: "readEncoded data n b = Inr (Some out3, ?fb)"
        using e3 e4 e5 by (simp add: readEncoded_def finishRead_def alikeD[OF r5])
      have rf: "alike ?fa ?fb" using r5 by (simp add: alike_def)
      have w: "window_alike (snd out3) a5 b5"
      proof (cases "state a4 = START")
        case True
        with w5 show ?thesis by simp
      next
        case False
        with c k3(2) k4(4) have dn: "decrypter a \<noteq> None" by simp
        with same_frameD(2)[OF k3(1)] have d3: "decrypter a3 \<noteq> None" by simp
        from False have s5: "a5 = a4" "out3 = out2"
          using ea5 by (simp_all add: decompressBlock_other)
        from False have "state b4 \<noteq> START" using alikeD(7)[OF r4] by simp
        then have t5: "b5 = b4" using e5 by (simp add: decompressBlock_other)
        from ea4 d3 have "off_output (outputBufferPtr a4)"
          by (cases rule: decryptBlock_Inr) simp_all
        with p4 d3 r4 show ?thesis unfolding s5 t5
          by (intro window_alike_off) simp_all
      qed
      have "window_alike (snd out3) ?fa ?fb" by (rule window_alike_finish[OF w])
      with rf show ?thesis unfolding fa fb
        by (cases out3) (simp add: read_alike_def)
    qed
  qed
qed

lemma readBlock_alike:
  assumes r: "alike a b" and ol: "outputBufferLength a = 0"
  shows "rel_sum (=) read_alike (readBlock data a) (readBlock data b)"
proof -
  note r0 = alike_update(5)[OF r, of None]
  note hs = headerStage_alike[OF r0]
  show ?thesis
  proof (cases "headerStage (a\<lparr>decryptionBuffer := None\<rparr>)")
    case (Inl e)
    from rel_sum_InlD[OF hs Inl] Inl show ?thesis by (simp add: readBlock_def)
  next
    case (Inr a1)
    from rel_sum_InrD[OF hs Inr]
    obtain b1 where h1: "headerStage (b\<lparr>decryptionBuffer := None\<rparr>) = Inr b1"
      and r1: "alike a1 b1" by auto
    note d1 = alikeD[OF r1]
    from same_frameD(6)[OF headerStage_same_frame[OF Inr]] ol
    have l1: "outputBufferLength a1 = 0" by simp
    show ?thesis
    proof (cases "state a1 = END")
      case True
      with Inr h1 r1 l1 show ?thesis by (simp add: readBlock_def d1 read_alike_def)
    next
      case False
      note rs = rangeStage_alike[OF r1]
      show ?thesis
      proof (cases "rangeStage a1")
        case (Inl e)
        from rel_sum_InlD[OF rs Inl] Inl \<open>headerStage (a\<lparr>decryptionBuffer := None\<rparr>) = Inr a1\<close>
          h1 False show ?thesis by (simp add: readBlock_def d1)
      next
        case (Inr a2)
        from rel_sum_InrD[OF rs Inr]
        obtain b2 where h2: "rangeStage b1 = Inr b2" and r2: "alike a2 b2" by auto
        note d2 = alikeD[OF r2]
        note av = availableInput_alike[OF r2]
        note ha = \<open>headerStage (a\<lparr>decryptionBuffer := None\<rparr>) = Inr a1\<close>
        from False have nb: "state b1 \<noteq> END" by (simp add: d1)
        show ?thesis
        proof (cases "availableInput a2")
          case None
          with ha h1 False Inr h2 av show ?thesis by (simp add: readBlock_def d1)
        next
          case (Some avail)
          from Some av have sb: "availableInput b2 = Some avail" by simp
          show ?thesis
          proof (cases "decrypter a2 = None \<and> state a2 = ORIGINAL")
            case True
            then have tb: "decrypter b2 = None \<and> state b2 = ORIGINAL" by (simp add: d2)
            show ?thesis
              unfolding readBlock_originalI[OF ha False Inr Some True]
                readBlock_originalI[OF h1 nb h2 sb tb] d2
              by (rule readOriginal_alike[OF r2])
          next
            case c: False
            then have tb: "\<not> (decrypter b2 = None \<and> state b2 = ORIGINAL)" by (simp add: d2)
            from headerStage_state[OF ha] rangeStage_state[OF Inr] False
            have "state a2 = START \<or> state a2 = ORIGINAL" by (cases "state a2") simp_all
            with c have c2: "decrypter a2 \<noteq> None \<or> state a2 = START" by auto
            show ?thesis
              unfolding readBlock_encodedI[OF ha False Inr Some c]
                readBlock_encodedI[OF h1 nb h2 sb tb] d2
              by (rule readEncoded_alike[OF r2 c2])
          qed
        qed
      qed
    qed
  qed
qed

lemma alike_sym: "alike a b \<Longrightarrow> alike b a"
  by (simp add: alike_def)

lemma replay_alike_sym:
  assumes "replay_alike a b"
  shows "replay_alike b a"
proof -
  from assms have r: "alike a b" by (simp add: replay_alike_def)
  note d = alikeD[OF r]
  from assms show ?thesis
    unfolding replay_alike_def d using alike_sym[OF r] by auto
qed

lemma replay_alikeI: "alike a b \<Longrightarrow> outputBufferLength a = 0 \<Longrightarrow> replay_alike a b"
  by (simp add: replay_alike_def)

lemma readOrSkip_alike:
  assumes r: "replay_alike a b"
  shows "rel_sum (=) read_alike (readOrSkip data a) (readOrSkip data b)"
proof -
  from r have al: "alike a b" by (simp add: replay_alike_def)
  note d = alikeD[OF al]
  show ?thesis
  proof (cases "data \<and> pendingSkip a \<noteq> 0")
    case True
    then show ?thesis by (simp add: readOrSkip_def d)
  next
    case np: False
    show ?thesis
    proof (cases "outputBufferLength a = 0")
      case True
      from np True have ea: "readOrSkip data a = readBlock data a"
        by (cases data) (simp_all add: readOrSkip_def)
      from np True have eb: "readOrSkip data b = readBlock data b"
        by (cases data) (simp_all add: readOrSkip_def d)
      show ?thesis unfolding ea eb by (rule readBlock_alike[OF al True])
    next
      case False
      let ?l = "outputBufferLength a"
      let ?p = "outputBufferPtr a"
      from r False have pb: "outputBufferPtr b = ?p"
        and w: "\<And>j. 0 \<le> j \<Longrightarrow> j \<le> ?l \<Longrightarrow>
           bytes_at b (ptr_add ?p (?l - j)) j = bytes_at a (ptr_add ?p (?l - j)) j"
        by (simp_all add: replay_alike_def)
      let ?a1 = "a\<lparr>outputBufferPtr := ptr_add ?p ?l, bytesReturned := bytesReturned a + ?l,
                    outputBufferLength := 0\<rparr>"
      let ?b1 = "b\<lparr>outputBufferPtr := ptr_add ?p ?l, bytesReturned := bytesReturned a + ?l,
                    outputBufferLength := 0\<rparr>"
      have ea: "readOrSkip data a = Inr (Some (if data then Some ?p else None, ?l), ?a1)"
        using np False by (simp add: readOrSkip_def)
      have eb: "readOrSkip data b = Inr (Some (if data then Some ?p else None, ?l), ?b1)"
        using np False by (simp add: readOrSkip_def d pb)
      have r1: "alike ?a1 ?b1" using al by (simp add: alike_def)
      have "window_alike ?l ?a1 ?b1"
        unfolding window_alike_def using w
        by (simp add: ptr_add_add bytes_at_def area_bytes_def)
      with r1 show ?thesis unfolding ea eb by (simp add: read_alike_def)
    qed
  qed
qed

lemma BackUp_alike:
  assumes r: "alike u v" and w: "window_alike n u v" and ol: "outputBufferLength u = 0"
    and ps: "pendingSkip u = 0" and c: "0 < c" "c \<le> n"
  shows "rel_sum (=) replay_alike (BackUp c u) (BackUp c v)"
proof -
  note d = alikeD[OF r]
  from w have pv: "outputBufferPtr v = outputBufferPtr u"
    and wb: "\<And>j. 0 \<le> j \<Longrightarrow> j \<le> n \<Longrightarrow>
        bytes_at v (ptr_add (outputBufferPtr u) (- j)) j =
        bytes_at u (ptr_add (outputBufferPtr u) (- j)) j"
    by (simp_all add: window_alike_def)
  let ?u1 = "u\<lparr>outputBufferPtr := ptr_add (outputBufferPtr u) (- c),
                outputBufferLength := c, bytesReturned := bytesReturned u - c\<rparr>"
  let ?v1 = "v\<lparr>outputBufferPtr := ptr_add (outputBufferPtr u) (- c),
                outputBufferLength := c, bytesReturned := bytesReturned u - c\<rparr>"
  have zu: "u\<lparr>pendingSkip := 0\<rparr> = u" using ps by simp
  have zv: "v\<lparr>pendingSkip := 0\<rparr> = v" using ps d(17) by simp
  let ?A = "outputBufferPtr u = Null"
  let ?B = "state u = ORIGINAL \<and>
            \<not> (ptr_le (inputBufferStart u) (outputBufferPtr u) \<and>
               ptr_le (outputBufferPtr u) (inputBufferPtrEnd u))"
  let ?C = "state u = ORIGINAL \<and>
            (case ptr_diff (inputBufferPtr u) (inputBufferStart u) of
               None \<Rightarrow> True | Some consumed \<Rightarrow> consumed < c)"
  have eu: "BackUp c u =
      (if ?A then Inl BackupWithoutNext else if ?B then Inl BackupOutOfRange
       else if ?C then Inl BackupOutOfRange else Inr ?u1)"
    using c ps ol unfolding BackUp_def Let_def by (auto simp: zu cong: option.case_cong)
  have ev: "BackUp c v =
      (if ?A then Inl BackupWithoutNext else if ?B then Inl BackupOutOfRange
       else if ?C then Inl BackupOutOfRange else Inr ?v1)"
    using c ps ol unfolding BackUp_def Let_def by (auto simp: d pv zv cong: option.case_cong)
  have r1: "alike ?u1 ?v1" using r by (simp add: alike_def)
  have "replay_alike ?u1 ?v1"
    unfolding replay_alike_def
  proof (intro conjI impI allI)
    show "alike ?u1 ?v1" by (rule r1)
    show "outputBufferPtr ?v1 = outputBufferPtr ?u1" by simp
  next
    fix j assume j: "0 \<le> j \<and> j \<le> outputBufferLength ?u1"
    with c have "0 \<le> j" "j \<le> n" by simp_all
    from wb[OF this] show "bytes_at ?v1 (ptr_add (outputBufferPtr ?u1) (outputBufferLength ?u1 - j)) j =
         bytes_at ?u1 (ptr_add (outputBufferPtr ?u1) (outputBufferLength ?u1 - j)) j"
      by (simp add: ptr_add_add bytes_at_def area_bytes_def)
  qed
  then show ?thesis unfolding eu ev by auto
qed

lemma window_alike_pendingSkip:
  "window_alike n u v \<Longrightarrow> window_alike n (u\<lparr>pendingSkip := k\<rparr>) (v\<lparr>pendingSkip := k\<rparr>)"
  by (simp add: window_alike_def bytes_at_def area_bytes_def)

lemma skipAllPending_alike_Some:
  assumes "skipAllPending a = Some x" and "replay_alike a b"
  shows "\<exists>y. skipAllPending b = Some y \<and> rel_sum (=) (rel_prod (=) replay_alike) x y"
  using assms
proof (induction arbitrary: b rule: skipAllPending.raw_induct[rotated, consumes 1])
  case (1 f st x)
  from "1.prems" have al: "alike st b" by (simp add: replay_alike_def)
  note d = alikeD[OF al]
  note eq = "1.hyps"
  show ?case
  proof (cases "0 < pendingSkip st")
    case False
    with eq have x: "x = Inr (True, st)" by simp
    from False have "skipAllPending b = Some (Inr (True, b))"
      by (intro skipAllPending_none_pending) (simp add: d)
    with x "1.prems" show ?thesis by simp
  next
    case True
    then have pb: "0 < pendingSkip b" by (simp add: d)
    note rs = readOrSkip_alike[OF "1.prems", of False]
    show ?thesis
    proof (cases "readOrSkip False st")
      case (Inl e)
      from rel_sum_InlD[OF rs Inl] have "readOrSkip False b = Inl e" .
      then have "skipAllPending b = Some (Inl e)"
        using pb by (subst skipAllPending.simps) simp
      moreover from eq True Inl have "x = Inl e" by simp
      ultimately show ?thesis by simp
    next
      case (Inr z)
      obtain r u where z: "z = (r, u)" by (cases z)
      from rel_sum_InrD[OF rs Inr] z obtain v where
        rb: "readOrSkip False b = Inr (r, v)" and ra: "read_alike (r, u) (r, v)"
        by (auto simp: read_alike_def)
      from ra have uv: "alike u v" and ou: "outputBufferLength u = 0"
        by (simp_all add: read_alike_def)
      from Inr z have rst: "readOrSkip False st = Inr (r, u)" by simp
      note du = alikeD[OF uv]
      show ?thesis
      proof (cases r)
        case None
        with eq True rst have x: "x = Inr (False, u)" by simp
        from None rb pb have "skipAllPending b = Some (Inr (False, v))"
          by (subst skipAllPending.simps) simp
        with x replay_alikeI[OF uv ou] show ?thesis by simp
      next
        case (Some o1)
        obtain dd len where o1: "o1 = (dd, len)" by (cases o1)
        from ra Some o1 have w: "window_alike len u v" by (simp add: read_alike_def)
        from readOrSkip_keeps(1)[OF rst] True have pu: "0 < pendingSkip u" by simp
        note sb = skipAllPending_step[OF pb rb[unfolded Some o1], unfolded du(17)]
        show ?thesis
        proof (cases "pendingSkip u < len")
          case c: True
          let ?c = "len - pendingSkip u"
          have bu: "rel_sum (=) replay_alike (BackUp ?c (u\<lparr>pendingSkip := 0\<rparr>))
                      (BackUp ?c (v\<lparr>pendingSkip := 0\<rparr>))"
            by (rule BackUp_alike[OF alike_update(6)[OF uv] window_alike_pendingSkip[OF w]])
               (use ou pu c in simp_all)
          show ?thesis
          proof (cases "BackUp ?c (u\<lparr>pendingSkip := 0\<rparr>)")
            case (Inl e)
            from rel_sum_InlD[OF bu Inl] c
            have "skipAllPending b = Some (Inl e)" unfolding sb by simp
            moreover from eq True rst Some o1 c Inl have "x = Inl e" by simp
            ultimately show ?thesis by simp
          next
            case (Inr u2)
            from rel_sum_InrD[OF bu Inr] obtain v2 where
              bv: "BackUp ?c (v\<lparr>pendingSkip := 0\<rparr>) = Inr v2" and r2: "replay_alike u2 v2"
              by auto
            from eq True rst Some o1 c Inr have "f u2 = Some x" by simp
            from "1.IH"[OF this r2] obtain y where
              "skipAllPending v2 = Some y" "rel_sum (=) (rel_prod (=) replay_alike) x y"
              by blast
            moreover from bv c have "skipAllPending b = skipAllPending v2"
              unfolding sb by simp
            ultimately show ?thesis by simp
          qed
        next
          case c: False
          let ?u1 = "u\<lparr>pendingSkip := pendingSkip u - len\<rparr>"
          let ?v1 = "v\<lparr>pendingSkip := pendingSkip u - len\<rparr>"
          have r1: "replay_alike ?u1 ?v1"
            by (rule replay_alikeI[OF alike_update(6)[OF uv]]) (simp add: ou)
          from eq True rst Some o1 c have "f ?u1 = Some x" by simp
          from "1.IH"[OF this r1] obtain y where
            "skipAllPending ?v1 = Some y" "rel_sum (=) (rel_prod (=) replay_alike) x y"
            by blast
          moreover from c have "skipAllPending b = skipAllPending ?v1"
            unfolding sb by simp
          ultimately show ?thesis by simp
        qed
      qed
    qed
  qed
qed

lemma skipAllPending_alike:
  assumes "replay_alike a b"
  shows "rel_option (rel_sum (=) (rel_prod (=) replay_alike))
           (skipAllPending a) (skipAllPending b)"
proof (cases "skipAllPending a")
  case None
  have "skipAllPending b = None"
  proof (rule ccontr)
    assume "skipAllPending b \<noteq> None"
    then obtain y where "skipAllPending b = Some y" by auto
    from skipAllPending_alike_Some[OF this replay_alike_sym[OF assms]] None
    show False by simp
  qed
  with None show ?thesis by simp
next
  case (Some x)
  from skipAllPending_alike_Some[OF Some assms] Some show ?thesis by auto
qed

lemma bytes_at_negative: "n < 0 \<Longrightarrow> bytes_at st p n = None"
  by (cases p) (simp_all add: bytes_at_def split: option.splits)

lemma ptr_add_0 [simp]: "ptr_add p 0 = p"
  by (cases p) simp_all

lemma read_alike_same_view:
  assumes ra: "read_alike (r, u) y"
    and v: "\<And>p n. r = Some (Some p, n) \<Longrightarrow> outputBufferPtr u = ptr_add p n"
  shows "same_view (r, u) y"
proof -
  have "bytes_at (snd y) p n = bytes_at u p n" if r: "r = Some (Some p, n)" for p n
  proof (cases "n < 0")
    case True
    then show ?thesis by (simp add: bytes_at_negative)
  next
    case False
    from ra r have "window_alike n u (snd y)" by (simp add: read_alike_def)
    with False v[OF r] have
      "bytes_at (snd y) (ptr_add (ptr_add p n) (- n)) n =
       bytes_at u (ptr_add (ptr_add p n) (- n)) n"
      by (simp add: window_alike_def)
    then show ?thesis by (simp add: ptr_add_add)
  qed
  with ra show ?thesis by (simp add: same_view_def read_alike_def)
qed

lemma Next_alike:
  assumes "replay_alike a b"
  shows "rel_option (rel_sum (=) same_view) (Next a) (Next b)"
proof -
  note sp = skipAllPending_alike[OF assms]
  show ?thesis
  proof (cases "skipAllPending a")
    case None
    with sp have "skipAllPending b = None" by (cases "skipAllPending b") simp_all
    with None show ?thesis by (simp add: Next_def)
  next
    case (Some x)
    with sp obtain y where y: "skipAllPending b = Some y"
      and xy: "rel_sum (=) (rel_prod (=) replay_alike) x y"
      by (cases "skipAllPending b") simp_all
    show ?thesis
    proof (cases x)
      case (Inl e)
      with xy have "y = Inl e" by (cases y) simp_all
      with Some y Inl show ?thesis by (simp add: Next_def)
    next
      case (Inr z)
      obtain f a1 where z: "z = (f, a1)" by (cases z)
      from xy Inr z obtain b1 where yb: "y = Inr (f, b1)" and r1: "replay_alike a1 b1"
        by (cases y) auto
      have na: "Next a = Some (readOrSkip True a1)"
        using Some Inr z by (simp add: Next_def)
      have nb: "Next b = Some (readOrSkip True b1)"
        using y yb by (simp add: Next_def)
      note rs = readOrSkip_alike[OF r1, of True]
      have "rel_sum (=) same_view (readOrSkip True a1) (readOrSkip True b1)"
      proof (cases "readOrSkip True a1")
        case (Inl e)
        from rel_sum_InlD[OF rs Inl] Inl show ?thesis by simp
      next
        case (Inr w)
        obtain r u where w: "w = (r, u)" by (cases w)
        from rel_sum_InrD[OF rs Inr] w obtain t where
          t: "readOrSkip True b1 = Inr t" and ra: "read_alike (r, u) t" by auto
        from Inr w have e: "readOrSkip True a1 = Inr (r, u)" by simp
        have "same_view (r, u) t"
          by (rule read_alike_same_view[OF ra]) (use e in \<open>simp add: readOrSkip_view(1)\<close>)
        with Inr w t show ?thesis by simp
      qed
      then show ?thesis unfolding na nb by simp
    qed
  qed
qed

lemma same_but_output_alike:
  assumes "same_but_output a b" and "off_output (inputBufferPtr a)"
    and "case decompressor a of None \<Rightarrow> True | Some d \<Rightarrow> capacity_free d"
  shows "alike a b"
  using assms by (cases a; cases b) (simp add: same_but_output_def alike_def)

lemma alike_refl:
  assumes "off_output (inputBufferPtr a)"
    and "case decompressor a of None \<Rightarrow> True | Some d \<Rightarrow> capacity_free d"
  shows "alike a a"
  using assms by (simp add: alike_def)

lemma cursor_ok_off_output: "cursor_ok st \<Longrightarrow> off_output (inputBufferPtr st)"
  by (erule cursor_ok_cases) simp_all

lemma readBlock_off_output:
  assumes "readBlock data st = Inr (r, st1)" and "outputBufferLength st = 0"
    and "off_output (inputBufferPtr st)"
    and "case decompressor st of None \<Rightarrow> True | Some d \<Rightarrow> capacity_free d"
  shows "off_output (inputBufferPtr st1)"
proof -
  from readBlock_alike[OF alike_refl[OF assms(3,4)] assms(2), of data] assms(1)
  have "alike st1 st1" by (simp add: read_alike_def)
  then show ?thesis by (rule alikeD(18))
qed

lemma doubling_capacity_free: "capacity_free doubling"
  by (simp add: capacity_free_def doubling_def)

lemma Next_compressedRead: "\<exists>e. Next compressedRead = Some (Inr (None, e))"
proof -
  have "pendingSkip compressedRead = 0" by (simp add: stream_defs)
  then have "Next compressedRead = Some (readOrSkip True compressedRead)"
    by (simp add: Next_def skipAllPending_none_pending)
  then show ?thesis by (simp add: stream_defs read_defs)
qed

section \<open>The arithmetic of seekToPosition\<close>











section \<open>What skipAllPending does\<close>





section \<open>A replay window and a pending skip together\<close>








section \<open>BackUp before the first read\<close>






subsection \<open>Two raw blocks in one chunk\<close>





section \<open>The claims\<close>

text \<open>
  C2. Header decoding inverts header encoding. From three header bytes \<open>b0\<close>, \<open>b1\<close>,
  \<open>b2\<close>, wherever the boundaries of the source's chunks fall, \<open>readHeader\<close> forms
  \<open>h = b0 | b1<<8 | b2<<16\<close>, enters \<open>ORIGINAL\<close> (Raw) exactly when bit 0 of \<open>h\<close> is set
  and \<open>START\<close> (Compressed) when it is clear, and sets the block length to \<open>h >> 1\<close>.
  Hence for every \<open>(isOriginal, length)\<close> with \<open>length < 2^23\<close>, reading the header
  encoded from the pair gives the pair back.
\<close>

theorem readHeader_inverts_encodeHeader:
  assumes "cursor_ok st" and "[] \<notin> set (chunks (input st))" and "state st \<noteq> END"
  shows "(upcoming st = b0 # b1 # b2 # rest \<longrightarrow>
            (\<exists>st'. readHeader st = Inr st' \<and>
               state st' =
                 (if bit (ucast b0 OR push_bit 8 (ucast b1) OR push_bit 16 (ucast b2) :: 32 word) 0
                  then ORIGINAL else START) \<and>
               remainingLength st' =
                 uint (drop_bit 1
                   (ucast b0 OR push_bit 8 (ucast b1) OR push_bit 16 (ucast b2) :: 32 word)) \<and>
               upcoming st' = rest)) \<and>
         (len < 2 ^ 23 \<and> upcoming st = encodeHeader isOriginal len @ rest \<longrightarrow>
            (\<exists>st'. readHeader st = Inr st' \<and>
               state st' = (if isOriginal then ORIGINAL else START) \<and>
               remainingLength st' = int len \<and>
               upcoming st' = rest))"
proof (intro conjI impI)
  assume "upcoming st = b0 # b1 # b2 # rest"
  from readHeader_decodes[OF assms this]
  show "\<exists>st'. readHeader st = Inr st' \<and>
               state st' =
                 (if bit (ucast b0 OR push_bit 8 (ucast b1) OR push_bit 16 (ucast b2) :: 32 word) 0
                  then ORIGINAL else START) \<and>
               remainingLength st' =
                 uint (drop_bit 1
                   (ucast b0 OR push_bit 8 (ucast b1) OR push_bit 16 (ucast b2) :: 32 word)) \<and>
               upcoming st' = rest"
    by blast
next
  assume a: "len < 2 ^ 23 \<and> upcoming st = encodeHeader isOriginal len @ rest"
  let ?h = "headerWord isOriginal len"
  from a have up: "upcoming st = ucast ?h # ucast (drop_bit 8 ?h) # ucast (drop_bit 16 ?h) # rest"
    by (simp add: encodeHeader_def)
  from a have len: "len < 2 ^ 23" by simp
  have flag: "bit ?h 0 = isOriginal" by (rule bit_headerWord_0)
  from readHeader_decodes[OF assms up]
  show "\<exists>st'. readHeader st = Inr st' \<and>
               state st' = (if isOriginal then ORIGINAL else START) \<and>
               remainingLength st' = int len \<and>
               upcoming st' = rest"
    unfolding recombine[OF len] headerWord_len[OF len] flag by blast
qed

theorem readHeader_inverts_encodeHeader_witness:
  "cursor_ok (PagedInputStream (chunked [[201], [3, 1, 7]]) None None) \<and>
   [] \<notin> set (chunks (input (PagedInputStream (chunked [[201], [3, 1, 7]]) None None))) \<and>
   state (PagedInputStream (chunked [[201], [3, 1, 7]]) None None) \<noteq> END \<and>
   (33252::nat) < 2 ^ 23 \<and>
   upcoming (PagedInputStream (chunked [[201], [3, 1, 7]]) None None) =
     encodeHeader True 33252 @ [7] \<and>
   (\<exists>st'. readHeader (PagedInputStream (chunked [[201], [3, 1, 7]]) None None) = Inr st' \<and>
      state st' = ORIGINAL \<and> remainingLength st' = 33252 \<and> upcoming st' = [7])"
proof -
  let ?st = "PagedInputStream (chunked [[201], [3, 1, 7]]) None None"
  have h: "cursor_ok ?st" "[] \<notin> set (chunks (input ?st))" "state ?st \<noteq> END"
    by (simp_all add: PagedInputStream_def chunked_def cursor_ok_def)
  have e: "encodeHeader True 33252 = [201, 3, 1]"
    by (simp add: encodeHeader_def headerWord_def)
  have u: "upcoming ?st = encodeHeader True 33252 @ [7]"
    by (simp add: e upcoming_def PagedInputStream_def chunked_def)
  from readHeader_inverts_encodeHeader[OF h, where len = 33252 and isOriginal = True and rest = "[7]"] u h
  show ?thesis by simp
qed

text \<open>
  C3. When the underlying source is exhausted while the first byte of a block header is
  read, \<open>readHeader\<close> puts the stream into \<open>END\<close> (Exhausted) with remaining length zero
  and raises no error, and the read that asked for the header returns end-of-stream.
  When the source is exhausted at the second or third header byte, the operation fails
  with the fatal "read past EOF" instead.
\<close>

theorem readHeader_end_of_stream:
  "(inputBufferPtr st = inputBufferPtrEnd st \<and> source_Next (input st) = None \<longrightarrow>
      (\<exists>st'. readHeader st = Inr st' \<and> state st' = END \<and> remainingLength st' = 0) \<and>
      (outputBufferLength st = 0 \<and> pendingSkip st = 0 \<and>
       (state st = HEADER \<or> remainingLength st = 0) \<longrightarrow>
         (\<exists>st'. Next st = Some (Inr (None, st')) \<and> state st' = END \<and>
            remainingLength st' = 0))) \<and>
   (cursor_ok st \<and> [] \<notin> set (chunks (input st)) \<and> state st \<noteq> END \<and>
    (upcoming st = [b0] \<or> upcoming st = [b0, b1]) \<longrightarrow>
      readHeader st = Inl ReadPastEOF \<and>
      (outputBufferLength st = 0 \<and> pendingSkip st = 0 \<and>
       (state st = HEADER \<or> remainingLength st = 0) \<longrightarrow>
         Next st = Some (Inl ReadPastEOF)))"
proof (intro conjI impI)
  assume a: "inputBufferPtr st = inputBufferPtrEnd st \<and> source_Next (input st) = None"
  then have c: "chunks (input st) = []"
    by (simp add: source_Next_def split: list.splits)
  from a c show "\<exists>st'. readHeader st = Inr st' \<and> state st' = END \<and> remainingLength st' = 0"
    by (simp add: readHeader_exhausted)
  assume b: "outputBufferLength st = 0 \<and> pendingSkip st = 0 \<and>
       (state st = HEADER \<or> remainingLength st = 0)"
  let ?st0 = "st\<lparr>decryptionBuffer := None\<rparr>"
  have "readHeader ?st0 = Inr (?st0\<lparr>calls := calls ?st0 @ [CallInputNext], state := END,
                   inputBufferStart := Null, inputBufferPtr := Null,
                   inputBufferPtrEnd := Null,
                   lastHeaderOffset := source_ByteCount (input ?st0) - 1,
                   bytesReturnedAtLastHeaderOffset := bytesReturned ?st0,
                   remainingLength := 0\<rparr>)"
    by (rule readHeader_exhausted) (use a c in simp_all)
  with b show "\<exists>st'. Next st = Some (Inr (None, st')) \<and> state st' = END \<and>
            remainingLength st' = 0"
    by (auto simp: Next_def skipAllPending_none_pending readOrSkip_def readBlock_def
        headerStage_def)
next
  assume a: "cursor_ok st \<and> [] \<notin> set (chunks (input st)) \<and> state st \<noteq> END \<and>
    (upcoming st = [b0] \<or> upcoming st = [b0, b1])"
  then show "readHeader st = Inl ReadPastEOF"
    using readHeader_truncated[of st b0 b1] by simp
  assume b: "outputBufferLength st = 0 \<and> pendingSkip st = 0 \<and>
       (state st = HEADER \<or> remainingLength st = 0)"
  let ?st0 = "st\<lparr>decryptionBuffer := None\<rparr>"
  have "readHeader ?st0 = Inl ReadPastEOF"
    by (rule readHeader_truncated[where ?b0.0 = b0 and ?b1.0 = b1])
       (use a in \<open>simp_all add: cursor_ok_def upcoming_def\<close>)
  with b show "Next st = Some (Inl ReadPastEOF)"
    by (auto simp: Next_def skipAllPending_none_pending readOrSkip_def readBlock_def
        headerStage_def)
qed

theorem readHeader_end_of_stream_witness:
  "(inputBufferPtr (PagedInputStream (chunked []) None None) =
      inputBufferPtrEnd (PagedInputStream (chunked []) None None) \<and>
    source_Next (input (PagedInputStream (chunked []) None None)) = None \<and>
    outputBufferLength (PagedInputStream (chunked []) None None) = 0 \<and>
    pendingSkip (PagedInputStream (chunked []) None None) = 0 \<and>
    state (PagedInputStream (chunked []) None None) = HEADER \<and>
    (\<exists>st'. readHeader (PagedInputStream (chunked []) None None) = Inr st' \<and>
       state st' = END \<and> remainingLength st' = 0) \<and>
    (\<exists>st'. Next (PagedInputStream (chunked []) None None) = Some (Inr (None, st')) \<and>
       state st' = END \<and> remainingLength st' = 0)) \<and>
   (cursor_ok (PagedInputStream (chunked [[201], [3]]) None None) \<and>
    [] \<notin> set (chunks (input (PagedInputStream (chunked [[201], [3]]) None None))) \<and>
    state (PagedInputStream (chunked [[201], [3]]) None None) \<noteq> END \<and>
    upcoming (PagedInputStream (chunked [[201], [3]]) None None) = [201, 3] \<and>
    outputBufferLength (PagedInputStream (chunked [[201], [3]]) None None) = 0 \<and>
    pendingSkip (PagedInputStream (chunked [[201], [3]]) None None) = 0 \<and>
    state (PagedInputStream (chunked [[201], [3]]) None None) = HEADER \<and>
    readHeader (PagedInputStream (chunked [[201], [3]]) None None) = Inl ReadPastEOF \<and>
    Next (PagedInputStream (chunked [[201], [3]]) None None) = Some (Inl ReadPastEOF))"
proof -
  let ?A = "PagedInputStream (chunked []) None None"
  let ?B = "PagedInputStream (chunked [[201], [3]]) None None"
  have a: "inputBufferPtr ?A = inputBufferPtrEnd ?A" "source_Next (input ?A) = None"
    "outputBufferLength ?A = 0" "pendingSkip ?A = 0" "state ?A = HEADER"
    by (simp_all add: PagedInputStream_def chunked_def source_Next_def)
  have b: "cursor_ok ?B" "[] \<notin> set (chunks (input ?B))" "state ?B \<noteq> END"
    "upcoming ?B = [201, 3]" "outputBufferLength ?B = 0" "pendingSkip ?B = 0"
    "state ?B = HEADER"
    by (simp_all add: PagedInputStream_def chunked_def cursor_ok_def upcoming_def)
  from readHeader_end_of_stream[of ?A] readHeader_end_of_stream[of ?B 201 3] a b
  show ?thesis by simp
qed




text \<open>
  C5, as the spec states it, fails: after a read of seven bytes and \<open>skip 3\<close>, the call
  \<open>BackUp 5\<close> takes three from the pending skip and rewinds only the remaining two bytes:
  \<open>bytesReturned\<close> goes from 7 to 5 (not to 2) and the replay window grows by 2 (not by 5).
\<close>

theorem BackUp_counterexample:
  "Next rawBlock = Some (Inr (Some (Some (Ptr InputRange 3), 7), rawBlockRead)) \<and>
   skip 3 rawBlockRead = Inr (True, rawBlockRead\<lparr>pendingSkip := 3\<rparr>) \<and>
   BackUp 5 (rawBlockRead\<lparr>pendingSkip := 3\<rparr>) =
     Inr (rawBlockRead\<lparr>pendingSkip := 0, outputBufferPtr := Ptr InputRange 8,
                       outputBufferLength := 2, bytesReturned := 5\<rparr>) \<and>
   bytesReturned (rawBlockRead\<lparr>pendingSkip := 3\<rparr>) - 5 = 2 \<and>
   outputBufferLength (rawBlockRead\<lparr>pendingSkip := 3\<rparr>) + 5 = 5"
proof -
  have "skip 3 rawBlockRead = Inr (True, rawBlockRead\<lparr>pendingSkip := 3\<rparr>)"
    by (simp add: skip_def rawBlockRead_def rawBlock_def PagedInputStream_def)
  moreover have "bytesReturned (rawBlockRead\<lparr>pendingSkip := 3\<rparr>) - 5 = 2"
    "outputBufferLength (rawBlockRead\<lparr>pendingSkip := 3\<rparr>) + 5 = 5"
    by (simp_all add: rawBlockRead_def rawBlock_def PagedInputStream_def)
  ultimately show ?thesis
    using Next_rawBlock BackUp_example by simp
qed

text \<open>
  C5, amended. For every call \<open>BackUp n\<close> with \<open>n \<ge> 0\<close> that passes its checks: the pending
  skip is first reduced by \<open>min n pendingSkip\<close>, and the call decrements \<open>bytesReturned\<close> by
  the remainder \<open>n - min n pendingSkip\<close> and enlarges the replay window by that remainder;
  nothing else changes.
\<close>

theorem BackUp_effect:
  assumes "0 \<le> n" and "0 \<le> pendingSkip st" and "BackUp n st = Inr st'"
  shows "pendingSkip st' = pendingSkip st - min n (pendingSkip st) \<and>
         bytesReturned st' = bytesReturned st - (n - min n (pendingSkip st)) \<and>
         outputBufferLength st' = outputBufferLength st + (n - min n (pendingSkip st)) \<and>
         outputBufferPtr st' = ptr_add (outputBufferPtr st) (- (n - min n (pendingSkip st))) \<and>
         st' = st\<lparr>pendingSkip := pendingSkip st', bytesReturned := bytesReturned st',
                  outputBufferLength := outputBufferLength st',
                  outputBufferPtr := outputBufferPtr st'\<rparr>"
proof (cases "0 < pendingSkip st \<and> n \<le> pendingSkip st")
  case True
  then have m: "min n (pendingSkip st) = n" by simp
  from True assms have "st' = st\<lparr>pendingSkip := pendingSkip st - n\<rparr>"
    by (simp add: BackUp_absorbed)
  then show ?thesis
    unfolding m by (cases "outputBufferPtr st") simp_all
next
  case False
  with assms have m: "min n (pendingSkip st) = pendingSkip st" by auto
  from BackUp_rewinds[OF assms(1,2) False assms(3)] show ?thesis
    unfolding m by simp
qed

theorem BackUp_effect_witness:
  "(0::int) \<le> 5 \<and> 0 \<le> pendingSkip (rawBlockRead\<lparr>pendingSkip := 3\<rparr>) \<and>
   BackUp 5 (rawBlockRead\<lparr>pendingSkip := 3\<rparr>) =
     Inr (rawBlockRead\<lparr>pendingSkip := 0, outputBufferPtr := Ptr InputRange 8,
                       outputBufferLength := 2, bytesReturned := 5\<rparr>) \<and>
   pendingSkip (rawBlockRead\<lparr>pendingSkip := 0, outputBufferPtr := Ptr InputRange 8,
                       outputBufferLength := 2, bytesReturned := 5\<rparr>) = 3 - min 5 3 \<and>
   bytesReturned (rawBlockRead\<lparr>pendingSkip := 0, outputBufferPtr := Ptr InputRange 8,
                       outputBufferLength := 2, bytesReturned := 5\<rparr>) = 7 - (5 - min 5 3) \<and>
   outputBufferLength (rawBlockRead\<lparr>pendingSkip := 0, outputBufferPtr := Ptr InputRange 8,
                       outputBufferLength := 2, bytesReturned := 5\<rparr>) = 0 + (5 - min 5 3)"
proof -
  have p: "pendingSkip (rawBlockRead\<lparr>pendingSkip := 3\<rparr>) = 3" by simp
  from BackUp_effect[OF _ _ BackUp_example] BackUp_example show ?thesis
    by (simp add: p)
qed

text \<open>
  C8. For every \<open>n \<ge> 0\<close> and every stream state, \<open>skip n\<close> adds \<open>n\<close> to the pending skip and
  changes no other component of the stream (no header is parsed, the underlying source is
  not called, no buffer is touched, \<open>bytesReturned\<close> stays), and it returns true.
\<close>

theorem skip_only_accumulates:
  assumes "0 \<le> n"
  shows "skip n st = Inr (True, st\<lparr>pendingSkip := pendingSkip st + n\<rparr>) \<and>
         (\<forall>r st'. skip n st = Inr (r, st') \<longrightarrow>
            r \<and> pendingSkip st' = pendingSkip st + n \<and> st'\<lparr>pendingSkip := pendingSkip st\<rparr> = st \<and>
            input st' = input st \<and> calls st' = calls st \<and> bytesReturned st' = bytesReturned st \<and>
            state st' = state st \<and> remainingLength st' = remainingLength st \<and>
            lastHeaderOffset st' = lastHeaderOffset st \<and>
            inputRange st' = inputRange st \<and> inputBuffer st' = inputBuffer st \<and>
            outputBuffer st' = outputBuffer st \<and> decryptionBuffer st' = decryptionBuffer st \<and>
            outputBufferPtr st' = outputBufferPtr st \<and>
            outputBufferLength st' = outputBufferLength st \<and>
            inputBufferPtr st' = inputBufferPtr st \<and> inputBufferPtrEnd st' = inputBufferPtrEnd st)"
  using assms by (auto simp: skip_def)

theorem skip_only_accumulates_witness:
  "(0::int) \<le> 5 \<and> skip 5 rawBlockRead = Inr (True, rawBlockRead\<lparr>pendingSkip := 5\<rparr>)"
  using skip_only_accumulates[of 5 rawBlockRead]
  by (simp add: rawBlockRead_def rawBlock_def PagedInputStream_def)




text \<open>
  C4. Skipping \<open>k\<close> bytes and then reading delivers what reading and discarding the first
  \<open>k\<close> bytes delivers. Let \<open>Next\<close> on a stream with nothing pending and an empty replay
  window return a view of \<open>n\<close> bytes at \<open>p\<close> and leave the stream \<open>st1\<close>, and let the
  decompressor produce the lengths it reports as exact, whatever room it is given. Then
  \<open>skip k\<close> only records \<open>k\<close>. For \<open>k < n\<close> the following \<open>Next\<close> returns the last \<open>n - k\<close>
  bytes of that same view and leaves the same stream \<open>st1\<close>. For \<open>k \<ge> n\<close> the whole view is
  skipped and the following \<open>Next\<close> does what \<open>Next\<close> does on \<open>st1\<close> with \<open>k - n\<close> bytes
  still to skip: both fail with the same error, or both report the end of the stream, or
  both return a view of the same size at the same pointer with the same bytes; and they
  leave streams that read alike. Streams that read alike go on to return the same views
  on every later \<open>Next\<close>.
\<close>

theorem skip_then_Next_same_bytes:
  assumes ok: "cursor_ok st" and ps: "pendingSkip st = 0" and ol: "outputBufferLength st = 0"
    and good: "\<forall>d. decompressor st = Some d \<longrightarrow> exact_lengths_hold d \<and> capacity_free d"
    and nx: "Next st = Some (Inr (Some (Some p, n), st1))"
    and k: "0 \<le> k"
  shows "skip k st = Inr (True, st\<lparr>pendingSkip := k\<rparr>) \<and>
         (k < n \<longrightarrow>
            Next (st\<lparr>pendingSkip := k\<rparr>) =
              Some (Inr (Some (Some (ptr_add p k), n - k), st1)) \<and>
            (\<forall>bs. bytes_at st1 p n = Some bs \<longrightarrow>
               bytes_at st1 (ptr_add p k) (n - k) = Some (drop (nat k) bs))) \<and>
         (0 < k \<and> n \<le> k \<longrightarrow>
            rel_option (rel_sum (=) same_view)
              (Next (st1\<lparr>pendingSkip := k - n\<rparr>)) (Next (st\<lparr>pendingSkip := k\<rparr>))) \<and>
         (\<forall>a b. alike a b \<and> outputBufferLength a = 0 \<longrightarrow>
            rel_option (rel_sum (=) same_view) (Next a) (Next b))"
proof -
  have sk: "skip k st = Inr (True, st\<lparr>pendingSkip := k\<rparr>)"
    using k ps by (simp add: skip_def)
  from good have exact: "\<forall>d. decompressor st = Some d \<longrightarrow> exact_lengths_hold d" by simp
  from good have free: "case decompressor st of None \<Rightarrow> True | Some d \<Rightarrow> capacity_free d"
    by (simp split: option.splits)
  from nx ps have "readOrSkip True st = Inr (Some (Some p, n), st1)"
    by (simp add: Next_def skipAllPending_none_pending)
  with ol have rb: "readBlock True st = Inr (Some (Some p, n), st1)"
    by (simp add: readOrSkip_def split: if_splits)
  note v = readBlock_view[OF rb]
  from readBlock_keeps(1)[OF rb] ps have p1: "pendingSkip st1 = 0" by simp
  note sm = readBlock_skip_mode[OF rb exact, of k]
  have small: "Next (st\<lparr>pendingSkip := k\<rparr>) =
              Some (Inr (Some (Some (ptr_add p k), n - k), st1))" if kn: "k < n"
  proof (cases "k = 0")
    case True
    with ps have "st\<lparr>pendingSkip := k\<rparr> = st" by simp
    with nx True show ?thesis by (cases p) simp_all
  next
    case False
    with k have kp: "0 < k" by simp
    from sm kn have rs: "readOrSkip False (st\<lparr>pendingSkip := k\<rparr>) =
        Inr (Some (None, n), st1\<lparr>pendingSkip := k\<rparr>)"
      using ol by (simp add: readOrSkip_def)
    have z: "st1\<lparr>pendingSkip := 0\<rparr> = st1" using p1 by simp
    let ?b = "st1\<lparr>outputBufferPtr := ptr_add p k, outputBufferLength := n - k,
              bytesReturned := bytesReturned st1 - (n - k)\<rparr>"
    have bu: "BackUp (n - k) st1 = Inr ?b"
      using BackUp_after_view[OF rb ok ps, of "n - k"] kn kp by simp
    have np: "skipAllPending ?b = Some (Inr (True, ?b))"
      by (rule skipAllPending_none_pending) (simp add: p1)
    have "skipAllPending (st\<lparr>pendingSkip := k\<rparr>) = Some (Inr (True, ?b))"
      using skipAllPending_step[OF _ rs] kp kn bu
      by (simp add: z np)
    moreover have "readOrSkip True ?b = Inr (Some (Some (ptr_add p k), n - k), st1)"
    proof -
      have "st1\<lparr>outputBufferPtr := ptr_add p n, outputBufferLength := 0,
               bytesReturned := bytesReturned st1\<rparr> = st1"
        using v by simp
      then show ?thesis
        using kn p1 by (simp add: readOrSkip_def ptr_add_add)
    qed
    ultimately show ?thesis by (simp add: Next_def)
  qed
  have whole: "rel_option (rel_sum (=) same_view)
              (Next (st1\<lparr>pendingSkip := k - n\<rparr>)) (Next (st\<lparr>pendingSkip := k\<rparr>))"
    if kn: "0 < k \<and> n \<le> k"
  proof -
    from sm obtain st1e where
      re: "readBlock False (st\<lparr>pendingSkip := k\<rparr>) =
              Inr (Some (None, n), st1e\<lparr>pendingSkip := k\<rparr>)"
      and so: "same_but_output st1 st1e" by blast
    from re ol have rs: "readOrSkip False (st\<lparr>pendingSkip := k\<rparr>) =
        Inr (Some (None, n), st1e\<lparr>pendingSkip := k\<rparr>)"
      by (simp add: readOrSkip_def)
    have sa: "skipAllPending (st\<lparr>pendingSkip := k\<rparr>) =
        skipAllPending (st1e\<lparr>pendingSkip := k - n\<rparr>)"
      using skipAllPending_step[OF _ rs] kn by simp
    then have ne: "Next (st\<lparr>pendingSkip := k\<rparr>) = Next (st1e\<lparr>pendingSkip := k - n\<rparr>)"
      by (simp add: Next_def)
    from readBlock_keeps(2)[OF rb] free
    have f1: "case decompressor st1 of None \<Rightarrow> True | Some d \<Rightarrow> capacity_free d" by simp
    from readBlock_off_output[OF rb ol cursor_ok_off_output[OF ok] free]
    have "off_output (inputBufferPtr st1)" .
    from same_but_output_alike[OF so this f1] have "alike st1 st1e" .
    from alike_update(6)[OF this, of "k - n"] v(2)
    have "replay_alike (st1\<lparr>pendingSkip := k - n\<rparr>) (st1e\<lparr>pendingSkip := k - n\<rparr>)"
      by (intro replay_alikeI) simp_all
    from Next_alike[OF this] show ?thesis unfolding ne .
  qed
  have bytes: "\<forall>bs. bytes_at st1 p n = Some bs \<longrightarrow>
               bytes_at st1 (ptr_add p k) (n - k) = Some (drop (nat k) bs)" if "k < n"
    using bytes_at_suffix[OF _ k, of st1 p n] that by simp
  from small bytes have c2: "k < n \<longrightarrow>
            Next (st\<lparr>pendingSkip := k\<rparr>) =
              Some (Inr (Some (Some (ptr_add p k), n - k), st1)) \<and>
            (\<forall>bs. bytes_at st1 p n = Some bs \<longrightarrow>
               bytes_at st1 (ptr_add p k) (n - k) = Some (drop (nat k) bs))"
    by simp
  from whole have c3: "0 < k \<and> n \<le> k \<longrightarrow>
            rel_option (rel_sum (=) same_view)
              (Next (st1\<lparr>pendingSkip := k - n\<rparr>)) (Next (st\<lparr>pendingSkip := k\<rparr>))"
    by (rule impI)
  have c4: "\<forall>a b. alike a b \<and> outputBufferLength a = 0 \<longrightarrow>
            rel_option (rel_sum (=) same_view) (Next a) (Next b)"
    using Next_alike[OF replay_alikeI] by blast
  show ?thesis by (rule conjI[OF sk conjI[OF c2 conjI[OF c3 c4]]])
qed

theorem skip_then_Next_same_bytes_witness:
  "cursor_ok compressedBlock \<and> pendingSkip compressedBlock = 0 \<and>
   outputBufferLength compressedBlock = 0 \<and>
   decompressor compressedBlock = Some doubling \<and> exact_lengths_hold doubling \<and>
   capacity_free doubling \<and>
   Next compressedBlock =
     Some (Inr (Some (Some (Ptr OutputBufferData 0), 6), compressedRead)) \<and>
   bytes_at compressedRead (Ptr OutputBufferData 0) 6 = Some [10, 10, 20, 20, 30, 30] \<and>
   skip 4 compressedBlock = Inr (True, compressedBlock\<lparr>pendingSkip := 4\<rparr>) \<and>
   Next (compressedBlock\<lparr>pendingSkip := 4\<rparr>) =
     Some (Inr (Some (Some (Ptr OutputBufferData 4), 2), compressedRead)) \<and>
   bytes_at compressedRead (Ptr OutputBufferData 4) 2 = Some [30, 30] \<and>
   skip 6 compressedBlock = Inr (True, compressedBlock\<lparr>pendingSkip := 6\<rparr>) \<and>
   (\<exists>e. Next compressedRead = Some (Inr (None, e))) \<and>
   (\<exists>e. Next (compressedBlock\<lparr>pendingSkip := 6\<rparr>) = Some (Inr (None, e)))"
proof -
  have h: "cursor_ok compressedBlock" "pendingSkip compressedBlock = 0"
    "outputBufferLength compressedBlock = 0" "decompressor compressedBlock = Some doubling"
    by (simp_all add: stream_defs cursor_ok_def)
  from h(4) doubling_exact doubling_capacity_free
  have g: "\<forall>d. decompressor compressedBlock = Some d \<longrightarrow>
      exact_lengths_hold d \<and> capacity_free d"
    by simp
  have b: "bytes_at compressedRead (Ptr OutputBufferData 0) 6 = Some [10, 10, 20, 20, 30, 30]"
    by (simp add: stream_defs bytes_at_def area_bytes_def)
  note t = skip_then_Next_same_bytes[OF h(1,2,3) g Next_compressedBlock]
  have a: "skip 4 compressedBlock = Inr (True, compressedBlock\<lparr>pendingSkip := 4\<rparr>)"
    "Next (compressedBlock\<lparr>pendingSkip := 4\<rparr>) =
       Some (Inr (Some (Some (Ptr OutputBufferData 4), 2), compressedRead))"
    "bytes_at compressedRead (Ptr OutputBufferData 4) 2 = Some [30, 30]"
    using t[of 4] b by simp_all
  have z: "compressedRead\<lparr>pendingSkip := 6 - 6\<rparr> = compressedRead"
    by (simp add: stream_defs)
  have c: "skip 6 compressedBlock = Inr (True, compressedBlock\<lparr>pendingSkip := 6\<rparr>)"
    "rel_option (rel_sum (=) same_view) (Next compressedRead)
       (Next (compressedBlock\<lparr>pendingSkip := 6\<rparr>))"
    using t[of 6] unfolding z by simp_all
  from Next_compressedRead obtain e where e: "Next compressedRead = Some (Inr (None, e))" ..
  from c(2) have d: "\<exists>e. Next (compressedBlock\<lparr>pendingSkip := 6\<rparr>) = Some (Inr (None, e))"
    unfolding e
    by (cases "Next (compressedBlock\<lparr>pendingSkip := 6\<rparr>)")
       (auto simp: same_view_def elim!: rel_sum.cases)
  from h doubling_exact doubling_capacity_free Next_compressedBlock b a c(1)
    Next_compressedRead d
  show ?thesis by (simp only: simp_thms)
qed




text \<open>
  C7. A read of a compressed block (the header stage leaves the state \<open>START\<close>) asks the
  decompressor for the decompressed length. In skip mode (no destination), when that
  length is exact and does not exceed the pending skip, \<open>decompress\<close> is not called, the
  output buffer is left alone and the read reports that length. In every other case the
  output buffer has at least the capacity of the decompressed length, \<open>decompress\<close> is
  called once and fills it, and the read reports the length produced.
\<close>

theorem skip_mode_elides_decompression:
  assumes "outputBufferLength st = 0"
    and "headerStage (st\<lparr>decryptionBuffer := None\<rparr>) = Inr st1" and "state st1 = START"
    and "readOrSkip data st = Inr (r, st')"
  shows "\<exists>d bs cs. decompressor st = Some d \<and> \<not> list_ex is_decompress cs \<and>
           (if \<not> data \<and> snd (getDecompressedLength d bs) \<and>
               fst (getDecompressedLength d bs) \<le> pendingSkip st
            then r = Some (None, fst (getDecompressedLength d bs)) \<and>
                 calls st' = calls st @ cs @ [CallGetDecompressedLength bs] \<and>
                 outputBuffer st' = outputBuffer st
            else (\<exists>buf. outputBuffer
                           (prepareOutputBuffer (fst (getDecompressedLength d bs)) st) =
                         Some buf \<and>
                    fst (getDecompressedLength d bs) \<le> int (length buf) \<and>
                    calls st' = calls st @ cs @ [CallGetDecompressedLength bs,
                                                CallDecompress bs (int (length buf))] \<and>
                    outputBuffer st' =
                      Some (copy_to buf 0 (decompress d bs (int (length buf)))) \<and>
                    r = Some (if data then Some (Ptr OutputBufferData 0) else None,
                              int (length (decompress d bs (int (length buf)))))))"
proof -
  from assms(1,4) have rb: "readBlock data st = Inr (r, st')"
    by (auto simp: readOrSkip_def split: if_splits)
  from rb show ?thesis
  proof (cases rule: readBlock_Inr)
    case eof
    with assms(2,3) show ?thesis by simp
  next
    case (original st1' st2 avail)
    with assms(2,3) rangeStage_state[OF original(3)] show ?thesis by simp
  next
    case (encoded st1' st2 avail)
    from encoded(1) assms(2) have s1: "st1' = st1" by simp
    from encoded(6) show ?thesis
    proof (cases rule: readEncoded_Inr)
      case (1 i1 st3 i2 out2 st4 out3 st5)
      note in_st = input_stages[OF encoded(1,3) 1(1)]
      note f3 = same_frameD[OF in_st(1)]
      from in_st(1) obtain m where
        c3: "calls st3 = calls st @ replicate m CallInputNext"
        unfolding same_frame_def by auto
      have "\<exists>cs. calls st4 = calls st @ cs \<and> \<not> list_ex is_decompress cs \<and>
                 (\<not> data \<longrightarrow> fst out2 = None)"
        using 1(2)
      proof (cases rule: decryptBlock_Inr)
        case plain
        with c3 show ?thesis by (auto simp: replicate_no_decompress)
      next
        case (decrypted dec bs)
        with c3 show ?thesis
          by (intro exI[of _ "replicate m CallInputNext @ [CallDecrypt bs]"])
             (auto simp: replicate_no_decompress)
      qed
      then obtain cs where c4: "calls st4 = calls st @ cs" "\<not> list_ex is_decompress cs"
        "\<not> data \<longrightarrow> fst out2 = None"
        by blast
      note k4 = decryptBlock_keeps[OF 1(2)]
      from k4 f3 in_st s1 assms(3) have st4: "state st4 = START"
        "decompressor st4 = decompressor st" "pendingSkip st4 = pendingSkip st"
        "outputBuffer st4 = outputBuffer st"
        by simp_all
      have po: "outputBuffer (prepareOutputBuffer n st4) =
                outputBuffer (prepareOutputBuffer n st)" for n
        using st4(4) by (simp add: prepareOutputBuffer_def split: option.splits)
      from 1(3) show ?thesis
      proof (cases rule: decompressBlock_Inr)
        case other
        with st4 show ?thesis by simp
      next
        case (elided d bs)
        have "r = Some (None, fst (getDecompressedLength d bs))"
          using elided(5,8) c4(3) 1(4) by simp
        moreover have "calls st' = calls st @ cs @ [CallGetDecompressedLength bs]"
          "outputBuffer st' = outputBuffer st"
          using elided(9) c4(1) st4(4) 1(5) by simp_all
        ultimately show ?thesis
          using elided(2,5,6,7) st4(2,3) c4(2)
          by (intro exI[of _ d] exI[of _ bs] exI[of _ cs]) simp
      next
        case (decompressed d bs buf)
        from prepareOutputBuffer_capacity[of "fst (getDecompressedLength d bs)" st4]
          decompressed(6)
        have cap: "fst (getDecompressedLength d bs) \<le> int (length buf)" by simp
        have "r = Some (if data then Some (Ptr OutputBufferData 0) else None,
                        int (length (decompress d bs (int (length buf)))))"
          using decompressed(7) c4(3) 1(4) by simp
        moreover have "calls st' = calls st @ cs @ [CallGetDecompressedLength bs,
                                                CallDecompress bs (int (length buf))]"
          "outputBuffer st' = Some (copy_to buf 0 (decompress d bs (int (length buf))))"
          using decompressed(8) c4(1) 1(5) by simp_all
        moreover have "outputBuffer (prepareOutputBuffer (fst (getDecompressedLength d bs)) st)
           = Some buf"
          using decompressed(6) po by simp
        ultimately show ?thesis
          using decompressed(2,5) st4(2,3) c4(2) cap
          by (intro exI[of _ d] exI[of _ bs] exI[of _ cs]) auto
      qed
    qed
  qed
qed

theorem skip_mode_elides_decompression_witness:
  "outputBufferLength (compressedBlock\<lparr>pendingSkip := 6\<rparr>) = 0 \<and>
   headerStage (compressedBlock\<lparr>pendingSkip := 6, decryptionBuffer := None\<rparr>) =
     Inr (compressedHeader\<lparr>pendingSkip := 6\<rparr>) \<and>
   state (compressedHeader\<lparr>pendingSkip := 6\<rparr>) = START \<and>
   readOrSkip False (compressedBlock\<lparr>pendingSkip := 6\<rparr>) =
     Inr (Some (None, 6), compressedSkipped\<lparr>pendingSkip := 6\<rparr>) \<and>
   calls (compressedSkipped\<lparr>pendingSkip := 6\<rparr>) =
     [CallInputNext, CallGetDecompressedLength [10, 20, 30]] \<and>
   outputBuffer (compressedSkipped\<lparr>pendingSkip := 6\<rparr>) = None \<and>
   outputBufferLength compressedBlock = 0 \<and>
   headerStage (compressedBlock\<lparr>decryptionBuffer := None\<rparr>) = Inr compressedHeader \<and>
   state compressedHeader = START \<and>
   readOrSkip True compressedBlock =
     Inr (Some (Some (Ptr OutputBufferData 0), 6), compressedRead) \<and>
   outputBuffer compressedRead = Some [10, 10, 20, 20, 30, 30] \<and>
   (\<exists>d bs cs. decompressor (compressedBlock\<lparr>pendingSkip := 6\<rparr>) = Some d \<and>
      \<not> list_ex is_decompress cs \<and>
      calls (compressedSkipped\<lparr>pendingSkip := 6\<rparr>) =
        calls (compressedBlock\<lparr>pendingSkip := 6\<rparr>) @ cs @ [CallGetDecompressedLength bs]) \<and>
   (\<exists>d bs cs buf. decompressor compressedBlock = Some d \<and>
      calls compressedRead = calls compressedBlock @ cs @
        [CallGetDecompressedLength bs, CallDecompress bs (int (length buf))] \<and>
      outputBuffer compressedRead = Some (copy_to buf 0 (decompress d bs (int (length buf)))))"
proof -
  let ?s = "compressedBlock\<lparr>pendingSkip := 6\<rparr>"
  have h1: "outputBufferLength ?s = 0"
    "headerStage (?s\<lparr>decryptionBuffer := None\<rparr>) = Inr (compressedHeader\<lparr>pendingSkip := 6\<rparr>)"
    "state (compressedHeader\<lparr>pendingSkip := 6\<rparr>) = START"
    "readOrSkip False ?s = Inr (Some (None, 6), compressedSkipped\<lparr>pendingSkip := 6\<rparr>)"
    using headerStage_compressedBlock[of 6] skip_mode_compressedBlock
    by (simp_all add: stream_defs)
  have h2: "outputBufferLength compressedBlock = 0"
    "headerStage (compressedBlock\<lparr>decryptionBuffer := None\<rparr>) = Inr compressedHeader"
    "state compressedHeader = START"
    "readOrSkip True compressedBlock =
       Inr (Some (Some (Ptr OutputBufferData 0), 6), compressedRead)"
    using headerStage_compressedBlock[of 0] readOrSkip_compressedBlock
    by (simp_all add: stream_defs)
  have f: "calls (compressedSkipped\<lparr>pendingSkip := 6\<rparr>) =
     [CallInputNext, CallGetDecompressedLength [10, 20, 30]]"
    "outputBuffer (compressedSkipped\<lparr>pendingSkip := 6\<rparr>) = None"
    "outputBuffer compressedRead = Some [10, 10, 20, 20, 30, 30]"
    "pendingSkip ?s = 6" "pendingSkip compressedBlock = 0"
    "decompressor ?s = Some doubling" "decompressor compressedBlock = Some doubling"
    by (simp_all add: stream_defs)
  have c0: "calls (compressedBlock\<lparr>pendingSkip := 6\<rparr>) = []"
    by (simp add: stream_defs)
  from skip_mode_elides_decompression[OF h1]
  have w1: "\<exists>d bs cs. decompressor ?s = Some d \<and> \<not> list_ex is_decompress cs \<and>
      calls (compressedSkipped\<lparr>pendingSkip := 6\<rparr>) =
        calls ?s @ cs @ [CallGetDecompressedLength bs]"
    unfolding f(1) f(4) f(6) c0
    by (auto simp: doubling_def split: if_splits)
  from skip_mode_elides_decompression[OF h2] f(5)
  have w2: "\<exists>d bs cs buf. decompressor compressedBlock = Some d \<and>
      calls compressedRead = calls compressedBlock @ cs @
        [CallGetDecompressedLength bs, CallDecompress bs (int (length buf))] \<and>
      outputBuffer compressedRead = Some (copy_to buf 0 (decompress d bs (int (length buf))))"
    by (simp only: simp_thms if_False if_True) blast
  from h1 h2 f w1 w2 show ?thesis by simp
qed

text \<open>
  C9. With a decrypter the zero-copy path for raw blocks is never taken: a read that returns
  a view has passed exactly the \<^verbatim>\<open>remainingLength_\<close> bytes of the block, contiguous as they
  come from the source, through \<open>decrypt\<close>, and leaves the state \<open>HEADER\<close> with remaining
  length zero. A raw block (state \<open>ORIGINAL\<close> after the header) is decrypted and not
  decompressed: the view is the decryption buffer. A compressed block is decrypted and then
  handed to the decompressor.
\<close>

theorem decrypter_disables_raw_fast_path:
  assumes "decrypter st = Some dec" and "outputBufferLength st = 0"
    and "readOrSkip data st = Inr (Some out, st')"
  shows "state st' = HEADER \<and> remainingLength st' = 0 \<and>
     (\<exists>st1 bs m rest.
        headerStage (st\<lparr>decryptionBuffer := None\<rparr>) = Inr st1 \<and>
        int (length bs) = remainingLength st1 \<and>
        calls st' = calls st @ replicate m CallInputNext @ CallDecrypt bs # rest \<and>
        (cursor_ok st \<and> 0 \<le> remainingLength st \<longrightarrow> upcoming st1 = bs @ upcoming st') \<and>
        (state st1 = ORIGINAL \<longrightarrow>
           rest = [] \<and>
           out = (if data then Some (Ptr DecryptionData 0) else None, int (length (dec bs))) \<and>
           bytes_at st' (Ptr DecryptionData 0) (snd out) = Some (dec bs)) \<and>
        (state st1 = START \<longrightarrow> (\<exists>cs. rest = CallGetDecompressedLength (dec bs) # cs)))"
proof -
  from assms(2,3) have rb: "readBlock data st = Inr (Some out, st')"
    by (auto simp: readOrSkip_def split: if_splits)
  from rb show ?thesis
  proof (cases rule: readBlock_Inr)
    case eof
    then show ?thesis by simp
  next
    case (original st1 st2 avail)
    from same_frameD(2)[OF headerStage_same_frame[OF original(1)]]
      same_frameD(2)[OF rangeStage_same_frame[OF original(3)]] original(5) assms(1)
    show ?thesis by simp
  next
    case (encoded st1 st2 avail)
    from encoded(6) show ?thesis
    proof (cases rule: readEncoded_Inr)
      case (1 i1 st3 i2 out2 st4 out3 st5)
      note in_st = input_stages[OF encoded(1,3) 1(1)]
      note f3 = same_frameD[OF in_st(1)]
      from in_st(1) obtain m where
        c3: "calls st3 = calls st @ replicate m CallInputNext"
        unfolding same_frame_def by auto
      from f3(2) assms(1) have d3: "decrypter st3 = Some dec" by simp
      from 1(2) d3 obtain bs where
        b: "bytes_at st3 i1 (remainingLength st3) = Some bs" and i2: "i2 = Ptr DecryptionData 0"
        and o2: "out2 = (if data then Some (Ptr DecryptionData 0) else None, int (length (dec bs)))"
        and st4: "st4 = st3\<lparr>calls := calls st3 @ [CallDecrypt bs],
                decryptionBuffer := Some (dec bs),
                remainingLength := int (length (dec bs)),
                outputBufferPtr := Ptr DecryptionData (int (length (dec bs)))\<rparr>"
        by (cases rule: decryptBlock_Inr) auto
      from bytes_at_length[OF b] in_st(3) have lb: "int (length bs) = remainingLength st1"
        by simp
      have s4: "state st4 = state st1" using in_st(2) by (simp add: st4)
      have b4: "bytes_at st4 i2 (remainingLength st4) = Some (dec bs)"
        by (simp add: st4 i2 bytes_at_def area_bytes_def)
      have fin: "state st' = HEADER" "remainingLength st' = 0" using 1(5) by simp_all
      have cont: "upcoming st1 = bs @ upcoming st'" if "cursor_ok st" "0 \<le> remainingLength st"
      proof -
        from that have "cursor_ok (st\<lparr>decryptionBuffer := None\<rparr>)"
          "0 \<le> remainingLength (st\<lparr>decryptionBuffer := None\<rparr>)"
          by (simp_all add: cursor_ok_def)
        from headerStage_cursor_ok[OF this encoded(1)]
        have ok1: "cursor_ok st1" and r1: "0 \<le> remainingLength st1" by simp_all
        from rangeStage_cursor_ok[OF ok1 encoded(3)] rangeStage_state[OF encoded(3)] r1
        have ok2: "cursor_ok st2" and u2: "upcoming st2 = upcoming st1"
          and r2: "0 \<le> remainingLength st2" "remainingLength st2 = remainingLength st1"
          by simp_all
        from ensureInput_contiguous[OF 1(1) ok2 encoded(4) refl r2(1)] obtain bs' where
          "bytes_at st3 i1 (remainingLength st2) = Some bs'" "upcoming st2 = bs' @ upcoming st3"
          by blast
        with b in_st(3) r2(2) have "upcoming st2 = bs @ upcoming st3" by simp
        moreover have "upcoming st' = upcoming st3"
          using decryptBlock_upcoming[OF 1(2)] decompressBlock_upcoming[OF 1(3)]
          by (simp add: 1(5) upcoming_def)
        ultimately show ?thesis using u2 by simp
      qed
      have "\<exists>rest. calls st' = calls st @ replicate m CallInputNext @ CallDecrypt bs # rest \<and>
        (state st1 = ORIGINAL \<longrightarrow>
           rest = [] \<and>
           out = (if data then Some (Ptr DecryptionData 0) else None, int (length (dec bs))) \<and>
           bytes_at st' (Ptr DecryptionData 0) (snd out) = Some (dec bs)) \<and>
        (state st1 = START \<longrightarrow> (\<exists>cs. rest = CallGetDecompressedLength (dec bs) # cs))"
        using 1(3)
      proof (cases rule: decompressBlock_Inr)
        case other
        with s4 1(4,5) o2 c3 show ?thesis
          by (intro exI[of _ "[]"]) (simp add: st4 bytes_at_def area_bytes_def)
      next
        case (elided d bs')
        with b4 have "bs' = dec bs" by simp
        with elided s4 1(5) c3 show ?thesis
          by (intro exI[of _ "[CallGetDecompressedLength (dec bs)]"]) (simp add: st4)
      next
        case (decompressed d bs' buf)
        with b4 have "bs' = dec bs" by simp
        with decompressed s4 1(5) c3 show ?thesis
          by (intro exI[of _ "[CallGetDecompressedLength (dec bs),
                CallDecompress (dec bs) (int (length buf))]"]) (simp add: st4)
      qed
      then obtain rest where
        "calls st' = calls st @ replicate m CallInputNext @ CallDecrypt bs # rest \<and>
        (state st1 = ORIGINAL \<longrightarrow>
           rest = [] \<and>
           out = (if data then Some (Ptr DecryptionData 0) else None, int (length (dec bs))) \<and>
           bytes_at st' (Ptr DecryptionData 0) (snd out) = Some (dec bs)) \<and>
        (state st1 = START \<longrightarrow> (\<exists>cs. rest = CallGetDecompressedLength (dec bs) # cs))" ..
      with fin encoded(1) lb cont show ?thesis
        by (intro conjI exI[of _ st1] exI[of _ bs] exI[of _ m] exI[of _ rest]) auto
    qed
  qed
qed

theorem decrypter_disables_raw_fast_path_witness:
  "decrypter encryptedBlock = Some increment \<and> outputBufferLength encryptedBlock = 0 \<and>
   readOrSkip True encryptedBlock =
     Inr (Some (Some (Ptr DecryptionData 0), 3), encryptedRead) \<and>
   cursor_ok encryptedBlock \<and> 0 \<le> remainingLength encryptedBlock \<and>
   headerStage (encryptedBlock\<lparr>decryptionBuffer := None\<rparr>) = Inr encryptedHeader \<and>
   state encryptedHeader = ORIGINAL \<and>
   state encryptedRead = HEADER \<and> remainingLength encryptedRead = 0 \<and>
   calls encryptedRead = calls encryptedBlock @ replicate 3 CallInputNext @ [CallDecrypt [1, 2, 3]] \<and>
   upcoming encryptedHeader = [1, 2, 3] @ upcoming encryptedRead \<and>
   bytes_at encryptedRead (Ptr DecryptionData 0) 3 = Some (increment [1, 2, 3])"
proof -
  have h: "decrypter encryptedBlock = Some increment" "outputBufferLength encryptedBlock = 0"
    "cursor_ok encryptedBlock" "0 \<le> remainingLength encryptedBlock"
    "state encryptedHeader = ORIGINAL"
    by (simp_all add: stream_defs cursor_ok_def)
  have c0: "calls encryptedBlock = []" by (simp add: stream_defs)
  from decrypter_disables_raw_fast_path[OF h(1,2) readOrSkip_encryptedBlock]
  obtain st1 bs m rest where r: "state encryptedRead = HEADER" "remainingLength encryptedRead = 0"
    "headerStage (encryptedBlock\<lparr>decryptionBuffer := None\<rparr>) = Inr st1"
    "calls encryptedRead = calls encryptedBlock @ replicate m CallInputNext @ CallDecrypt bs # rest"
    "cursor_ok encryptedBlock \<and> 0 \<le> remainingLength encryptedBlock \<longrightarrow>
       upcoming st1 = bs @ upcoming encryptedRead"
    "state st1 = ORIGINAL \<longrightarrow> rest = [] \<and>
       (Some (Ptr DecryptionData 0), 3) =
         (if True then Some (Ptr DecryptionData 0) else None, int (length (increment bs))) \<and>
       bytes_at encryptedRead (Ptr DecryptionData 0) (snd (Some (Ptr DecryptionData 0), 3::int)) =
         Some (increment bs)"
    by (elim conjE exE) blast
  from r(3) have s: "st1 = encryptedHeader" by (simp add: headerStage_encryptedBlock)
  have "dropWhile (\<lambda>c. c = CallInputNext) (replicate m CallInputNext @ CallDecrypt bs # rest) =
      CallDecrypt bs # rest"
    by (subst dropWhile_append2) simp_all
  with r(4) c0 have "dropWhile (\<lambda>c. c = CallInputNext) (calls encryptedRead) =
      CallDecrypt bs # rest"
    by simp
  then have b: "bs = [1, 2, 3]" "rest = []"
    by (simp_all add: stream_defs)
  have e: "calls encryptedRead =
      calls encryptedBlock @ replicate 3 CallInputNext @ [CallDecrypt [1, 2, 3]]"
    by (simp add: stream_defs numeral_3_eq_3)
  from r(5) h(3,4) s b have u: "upcoming encryptedHeader = [1, 2, 3] @ upcoming encryptedRead"
    by simp
  from r(6) s h(5) b
  have d: "bytes_at encryptedRead (Ptr DecryptionData 0) 3 = Some (increment [1, 2, 3])"
    by simp
  from h r(1,2) readOrSkip_encryptedBlock headerStage_encryptedBlock e u d
  show ?thesis by simp
qed

end
